theory Spec2Isabelle
  imports
    Complex_Main
    "HOL-Library.Multiset"
    "HOL-Library.Char_ord"
    "HOL-Library.List_Lexorder"
    "HOL-Library.Log_Nat"
begin

section \<open>Data model of \<^verbatim>\<open>src/lib.js\<close>\<close>

text \<open>
  A die is an array of face labels. A toss range holds the face sequences of a group of
  tosses and, in a parallel array, their numeric ids. Array lengths and ids are
  non-negative integers; they are modelled as \<^typ>\<open>nat\<close>.
\<close>

type_synonym die = "string list"

record tossRange =
  faces :: "string list list"
  ids :: "nat list"

definition emptyRange :: tossRange where
  "emptyRange = \<lparr>faces = [], ids = []\<rparr>"

section \<open>\<^verbatim>\<open>getDivisors\<close>\<close>

text \<open>
  \<^verbatim>\<open>for (let i = n; i >= 1; i--) if (n % i === 0) divisors.push(i)\<close>
\<close>

definition getDivisors :: "nat \<Rightarrow> nat list" where
  "getDivisors n = filter (\<lambda>i. n mod i = 0) (rev [1..<Suc n])"

section \<open>\<^verbatim>\<open>generateTosses\<close>\<close>

text \<open>
  The odometer \<^verbatim>\<open>idDigits\<close>. After the last digit is incremented, the carry loop runs
  \<^verbatim>\<open>j\<close> from \<^verbatim>\<open>throws - 1\<close> down to \<^verbatim>\<open>0\<close> and stops at the first digit below \<^verbatim>\<open>n\<close>.
  \<open>carry n ds c\<close> is the loop with \<open>c = j + 1\<close> iterations left. At \<^verbatim>\<open>j = 0\<close> the write
  \<^verbatim>\<open>idDigits[j - 1] += 1\<close> goes to the property \<^verbatim>\<open>-1\<close>, which is no array element: the
  digits stay as they are.
\<close>

fun carry :: "nat \<Rightarrow> nat list \<Rightarrow> nat \<Rightarrow> nat list" where
  "carry n ds 0 = ds"
| "carry n ds (Suc j) =
     (if ds ! j < n then ds
      else let ds1 = ds[j := ds ! j - n];
               ds2 = (if j = 0 then ds1 else ds1[j - 1 := ds1 ! (j - 1) + 1])
           in carry n ds2 j)"

definition nextDigits :: "nat \<Rightarrow> nat \<Rightarrow> nat list \<Rightarrow> nat list" where
  "nextDigits n throws ds = carry n (ds[throws - 1 := ds ! (throws - 1) + 1]) throws"

text \<open>\<^verbatim>\<open>idDigits.map(d => faces[d])\<close>\<close>

definition tossFacesArray :: "die \<Rightarrow> nat list \<Rightarrow> string list" where
  "tossFacesArray fs ds = map (\<lambda>d. fs ! d) ds"

text \<open>
  The grouping key. The source builds \<^verbatim>\<open>JSON.stringify(tossFacesArray.slice().sort())\<close>
  when \<^verbatim>\<open>assumeUnfair\<close> is set and the empty string otherwise. The serialisation of an
  array of strings is injective, so the key is modelled by the sorted array itself; the
  default sort compares strings code unit by code unit, which is the lexicographic
  order on \<^typ>\<open>string\<close>.
\<close>

definition chanceKey :: "bool \<Rightarrow> string list \<Rightarrow> string list" where
  "chanceKey assumeUnfair fs = (if assumeUnfair then sort fs else [])"

text \<open>
  \<^verbatim>\<open>byChance\<close> is a \<^verbatim>\<open>Map\<close>: its values are listed in the order in which their keys were
  first inserted. It is modelled as an association list; \<open>addToss\<close> appends the toss to
  the range of its key and creates the range at the end when the key is new.
\<close>

fun addToss :: "(string list \<times> tossRange) list \<Rightarrow> string list \<Rightarrow> string list \<Rightarrow> nat
    \<Rightarrow> (string list \<times> tossRange) list" where
  "addToss [] k f i = [(k, \<lparr>faces = [f], ids = [i]\<rparr>)]"
| "addToss ((k', r) # rest) k f i =
     (if k' = k then (k', \<lparr>faces = faces r @ [f], ids = ids r @ [i]\<rparr>) # rest
      else (k', r) # addToss rest k f i)"

text \<open>One iteration of the loop over \<^verbatim>\<open>id\<close>; the state is \<^verbatim>\<open>byChance\<close> and \<^verbatim>\<open>idDigits\<close>.\<close>

definition genStep :: "die \<Rightarrow> bool \<Rightarrow> nat \<Rightarrow> nat
    \<Rightarrow> (string list \<times> tossRange) list \<times> nat list
    \<Rightarrow> (string list \<times> tossRange) list \<times> nat list" where
  "genStep fs assumeUnfair throws i st =
     (let f = tossFacesArray fs (snd st)
      in (addToss (fst st) (chanceKey assumeUnfair f) f i,
          nextDigits (length fs) throws (snd st)))"

definition generateTosses :: "die \<Rightarrow> bool \<Rightarrow> nat \<Rightarrow> tossRange list" where
  "generateTosses fs assumeUnfair throws =
     (let n = length fs;
          idDigits = replicate throws 0;
          total = n ^ throws
      in map snd (fst (fold (genStep fs assumeUnfair throws) [0..<total] ([], idDigits))))"

section \<open>\<^verbatim>\<open>partitionTosses\<close>\<close>

text \<open>\<^verbatim>\<open>die.slice(i * subLength, (i + 1) * subLength)\<close> for \<^verbatim>\<open>i\<close> below \<^verbatim>\<open>divisor\<close>.\<close>

definition subDice :: "die \<Rightarrow> nat \<Rightarrow> die list" where
  "subDice d divisor =
     (let subLength = length d div divisor
      in map (\<lambda>i. take subLength (drop (i * subLength) d)) [0..<divisor])"

text \<open>
  The allocation of \<open>k\<close> tosses of a class to each of the sub-ranges: sub-range \<open>i\<close>
  receives the members \<open>i * k + j\<close>, \<open>j < k\<close>, of the class, in that order.
\<close>

definition allocate :: "nat \<Rightarrow> tossRange \<Rightarrow> tossRange list \<Rightarrow> tossRange list" where
  "allocate k u subRanges =
     map (\<lambda>(i, sr). \<lparr>faces = faces sr @ take k (drop (i * k) (faces u)),
                     ids = ids sr @ take k (drop (i * k) (ids u))\<rparr>)
         (zip [0..<length subRanges] subRanges)"

text \<open>
  The loop over the classes for one divisor. A class that gives \<open>k = 0\<close> full sets is kept
  as it is; a class that is used up is spliced out of \<^verbatim>\<open>tosses\<close>; any other class loses
  its first \<open>divisor * k\<close> members. The result is the new \<^verbatim>\<open>tosses\<close> array and the
  filled sub-ranges.
\<close>

fun allocClasses :: "nat \<Rightarrow> tossRange list \<Rightarrow> tossRange list
    \<Rightarrow> tossRange list \<times> tossRange list" where
  "allocClasses divisor [] subRanges = ([], subRanges)"
| "allocClasses divisor (u # rest) subRanges =
     (let k = length (faces u) div divisor
      in if k = 0 then
           (let (rest', srs) = allocClasses divisor rest subRanges in (u # rest', srs))
         else
           (let srs1 = allocate k u subRanges; n = divisor * k
            in if length (faces u) = n then allocClasses divisor rest srs1
               else (let u' = \<lparr>faces = drop n (faces u), ids = drop n (ids u)\<rparr>;
                         (rest', srs) = allocClasses divisor rest srs1
                     in (u' # rest', srs))))"

text \<open>
  A non-empty sub-range is sorted by id and stored in the result under a fresh key
  object, so the result \<^verbatim>\<open>Map\<close> is the list of its entries in insertion order.
\<close>

definition sortById :: "tossRange \<Rightarrow> tossRange" where
  "sortById sr =
     (let toss = sort_key snd (zip (faces sr) (ids sr))
      in \<lparr>faces = map fst toss, ids = map snd toss\<rparr>)"

definition addToResult :: "tossRange list \<Rightarrow> die list \<Rightarrow> (tossRange \<times> die) list" where
  "addToResult subRanges sds =
     map (\<lambda>(sr, sd). (sortById sr, sd))
         (filter (\<lambda>(sr, sd). length (faces sr) \<noteq> 0) (zip subRanges sds))"

text \<open>One pass of the outer loop: the state is \<^verbatim>\<open>tosses\<close> and \<^verbatim>\<open>result\<close>.\<close>

definition partitionStep :: "die \<Rightarrow> nat \<Rightarrow> tossRange list \<times> (tossRange \<times> die) list
    \<Rightarrow> tossRange list \<times> (tossRange \<times> die) list" where
  "partitionStep d divisor st =
     (let (tosses', srs) = allocClasses divisor (fst st) (replicate divisor emptyRange)
      in (tosses', snd st @ addToResult srs (subDice d divisor)))"

definition partitionTosses :: "tossRange list \<Rightarrow> die \<Rightarrow> (tossRange \<times> die) list" where
  "partitionTosses tosses d =
     snd (fold (partitionStep d) (getDivisors (length d)) (tosses, []))"

section \<open>Numbers\<close>

text \<open>
  The numbers of the source are IEEE 754 double-precision values. A value is a finite
  double, given by the rational it denotes, an infinity or \<^verbatim>\<open>NaN\<close>. No negative
  quantity occurs in the program, so the two zeros are not told apart.
\<close>

datatype number = Fin rat | PInf | NInf | NaN

text \<open>\<open>pow2 k\<close> is \<open>2\<close> to the power \<open>k\<close> for an integer \<open>k\<close>.\<close>

definition pow2 :: "int \<Rightarrow> rat" where
  "pow2 k = (if 0 \<le> k then 2 ^ nat k else 1 / 2 ^ nat (- k))"

text \<open>
  For a positive \<open>x\<close>, \<open>ilog2 x\<close> is the exponent \<open>e\<close> of its binade:
  \<open>pow2 e \<le> x < pow2 (e + 1)\<close>.
\<close>

definition ilog2 :: "rat \<Rightarrow> int" where
  "ilog2 x = (if 1 \<le> x then bitlen \<lfloor>x\<rfloor> - 1 else - bitlen (\<lceil>1 / x\<rceil> - 1))"

text \<open>Rounding to the nearest integer, ties to the even one.\<close>

definition roundEven :: "rat \<Rightarrow> int" where
  "roundEven m =
     (let f = \<lfloor>m\<rfloor>; d = m - of_int f
      in if d < 1 / 2 then f else if 1 / 2 < d then f + 1 else if even f then f else f + 1)"

text \<open>
  Rounding of an exact result to the nearest double, ties to even: 53 significant bits,
  the spacing of the subnormal numbers below \<open>pow2 (- 1022)\<close>, and an infinity when
  the rounded value reaches \<open>pow2 1024\<close>.
\<close>

definition rnd :: "rat \<Rightarrow> number" where
  "rnd x =
     (if x = 0 then Fin 0
      else let a = \<bar>x\<bar>;
               q = max (ilog2 a) (- 1022) - 52;
               y = of_int (roundEven (a / pow2 q)) * pow2 q
           in if pow2 1024 \<le> y then (if 0 < x then PInf else NInf)
              else Fin (if 0 < x then y else - y))"

text \<open>
  An array length or a loop counter used as a number. \<^verbatim>\<open>Math.pow\<close> of two such
  integers is taken to be the correctly rounded power.
\<close>

definition ofNat :: "nat \<Rightarrow> number" where
  "ofNat n = rnd (of_nat n)"

text \<open>The arithmetic operators: the exact result, rounded; the special values as in IEEE 754.\<close>

fun fneg :: "number \<Rightarrow> number" where
  "fneg (Fin x) = Fin (- x)"
| "fneg PInf = NInf"
| "fneg NInf = PInf"
| "fneg NaN = NaN"

fun fadd :: "number \<Rightarrow> number \<Rightarrow> number" where
  "fadd (Fin x) (Fin y) = rnd (x + y)"
| "fadd NaN b = NaN"
| "fadd a NaN = NaN"
| "fadd PInf NInf = NaN"
| "fadd NInf PInf = NaN"
| "fadd PInf b = PInf"
| "fadd NInf b = NInf"
| "fadd a PInf = PInf"
| "fadd a NInf = NInf"

definition fsub :: "number \<Rightarrow> number \<Rightarrow> number" where
  "fsub a b = fadd a (fneg b)"

definition infSign :: "bool \<Rightarrow> number" where
  "infSign positive = (if positive then PInf else NInf)"

fun fmul :: "number \<Rightarrow> number \<Rightarrow> number" where
  "fmul (Fin x) (Fin y) = rnd (x * y)"
| "fmul NaN b = NaN"
| "fmul a NaN = NaN"
| "fmul (Fin x) PInf = (if x = 0 then NaN else infSign (0 < x))"
| "fmul (Fin x) NInf = (if x = 0 then NaN else infSign (x < 0))"
| "fmul PInf (Fin y) = (if y = 0 then NaN else infSign (0 < y))"
| "fmul NInf (Fin y) = (if y = 0 then NaN else infSign (y < 0))"
| "fmul PInf PInf = PInf"
| "fmul PInf NInf = NInf"
| "fmul NInf PInf = NInf"
| "fmul NInf NInf = PInf"

fun fdiv :: "number \<Rightarrow> number \<Rightarrow> number" where
  "fdiv (Fin x) (Fin y) =
     (if y = 0 then (if x = 0 then NaN else infSign (0 < x)) else rnd (x / y))"
| "fdiv NaN b = NaN"
| "fdiv a NaN = NaN"
| "fdiv (Fin x) PInf = Fin 0"
| "fdiv (Fin x) NInf = Fin 0"
| "fdiv PInf (Fin y) = infSign (0 \<le> y)"
| "fdiv NInf (Fin y) = infSign (y < 0)"
| "fdiv PInf PInf = NaN"
| "fdiv PInf NInf = NaN"
| "fdiv NInf PInf = NaN"
| "fdiv NInf NInf = NaN"

text \<open>The comparisons \<^verbatim>\<open><\<close> and \<^verbatim>\<open>>=\<close>; both are false when an operand is \<^verbatim>\<open>NaN\<close>.\<close>

fun flt :: "number \<Rightarrow> number \<Rightarrow> bool" where
  "flt (Fin x) (Fin y) = (x < y)"
| "flt NaN b = False"
| "flt a NaN = False"
| "flt a NInf = False"
| "flt PInf b = False"
| "flt NInf b = True"
| "flt a PInf = True"

fun fge :: "number \<Rightarrow> number \<Rightarrow> bool" where
  "fge (Fin x) (Fin y) = (y \<le> x)"
| "fge NaN b = False"
| "fge a NaN = False"
| "fge PInf b = True"
| "fge a NInf = True"
| "fge NInf b = False"
| "fge a PInf = False"

section \<open>Conversion rules\<close>

text \<open>
  A \<^verbatim>\<open>ConversionRule\<close>. A value of the \<^verbatim>\<open>conversions\<close> map is a face of the target
  die (a string), the rule itself (a repetition), or the rule of a reduced problem.
\<close>

datatype branch = Face string | Self | Sub rule
and rule = Rule (dieA: die) (dieB: die) (makeFair: bool) (throws: nat)
    (conversions: "(tossRange \<times> branch) list") (expectation: number)

section \<open>\<^verbatim>\<open>getConversion\<close> and \<^verbatim>\<open>getBestConversion\<close>\<close>

text \<open>
  The counter \<^verbatim>\<open>throws\<close> is a double that holds an integer. \<^verbatim>\<open>throws += 1\<close> is exact
  below \<open>2 ^ 53\<close>; at \<open>2 ^ 53\<close> the sum \<open>2 ^ 53 + 1\<close> is a tie and rounds back to
  \<open>2 ^ 53\<close>, so the counter stays there.
\<close>

definition incThrows :: "nat \<Rightarrow> nat" where
  "incThrows t = (if t < 2 ^ 53 then t + 1 else t)"

text \<open>
  The first loop of \<^verbatim>\<open>getBestConversion\<close>, the minimum number of throws. The loop
  need not end, so it takes fuel: one unit for each test of its condition; \<open>None\<close>
  means that the fuel ran out.
\<close>

fun minThrows :: "nat \<Rightarrow> nat \<Rightarrow> nat \<Rightarrow> nat \<Rightarrow> nat \<Rightarrow> nat option" where
  "minThrows 0 aFaces bFaces totalAFaces t = None"
| "minThrows (Suc fuel) aFaces bFaces totalAFaces t =
     (if totalAFaces < bFaces
      then minThrows fuel aFaces bFaces (totalAFaces * aFaces) (incThrows t)
      else Some t)"

text \<open>
  The loop of \<^verbatim>\<open>getConversion\<close> over the entries of the partition map. The state is
  \<^verbatim>\<open>z\<close> and \<^verbatim>\<open>sizeB\<close>; the map is rebuilt with the new values in the same order.
  \<open>best subDie\<close> stands for the call \<^verbatim>\<open>getBestConversion(dieA, subDie, makeFair)\<close>.
\<close>

fun convLoop :: "(die \<Rightarrow> rule option) \<Rightarrow> die \<Rightarrow> nat \<Rightarrow> number
    \<Rightarrow> (tossRange \<times> die) list \<Rightarrow> number \<Rightarrow> nat
    \<Rightarrow> (number \<times> nat \<times> (tossRange \<times> branch) list) option" where
  "convLoop best dB t sizeA [] z sizeB = Some (z, sizeB, [])"
| "convLoop best dB t sizeA ((rng, subDie) # rest) z sizeB =
     (if length subDie = length dB then
        (case convLoop best dB t sizeA rest z (length (faces rng)) of
           None \<Rightarrow> None
         | Some (z', sizeB', cs) \<Rightarrow> Some (z', sizeB', (rng, Self) # cs))
      else if length subDie = 1 then
        (case convLoop best dB t sizeA rest
                (fadd z (fmul (fdiv (ofNat (length (faces rng))) sizeA) (ofNat t))) sizeB of
           None \<Rightarrow> None
         | Some (z', sizeB', cs) \<Rightarrow> Some (z', sizeB', (rng, Face (subDie ! 0)) # cs))
      else
        (case best subDie of
           None \<Rightarrow> None
         | Some subConversion \<Rightarrow>
             (case convLoop best dB t sizeA rest
                     (fadd z (fmul (fdiv (ofNat (length (faces rng))) sizeA)
                                   (fadd (ofNat t) (expectation subConversion)))) sizeB of
                None \<Rightarrow> None
              | Some (z', sizeB', cs) \<Rightarrow> Some (z', sizeB', (rng, Sub subConversion) # cs))))"

definition conversionLoop :: "(die \<Rightarrow> rule option) \<Rightarrow> die \<Rightarrow> die \<Rightarrow> bool \<Rightarrow> nat
    \<Rightarrow> (number \<times> nat \<times> (tossRange \<times> branch) list) option" where
  "conversionLoop best dA dB mf t =
     convLoop best dB t (ofNat (length dA ^ t))
       (partitionTosses (generateTosses dA mf t) dB) (Fin 0) 0"

definition getConversionWith :: "(die \<Rightarrow> rule option) \<Rightarrow> die \<Rightarrow> die \<Rightarrow> bool \<Rightarrow> nat
    \<Rightarrow> rule option" where
  "getConversionWith best dA dB mf t =
     (let sizeA = ofNat (length dA ^ t)
      in case conversionLoop best dA dB mf t of
           None \<Rightarrow> None
         | Some (z, sizeB, cs) \<Rightarrow>
             Some (Rule dA dB mf t cs
                (fdiv (fadd (fmul sizeA z) (fmul (ofNat sizeB) (ofNat t)))
                      (fsub sizeA (ofNat sizeB)))))"

text \<open>\<^verbatim>\<open>if (!best || conversion.expectation < best.expectation) best = conversion\<close>\<close>

definition better :: "rule option \<Rightarrow> rule \<Rightarrow> rule" where
  "better best conversion =
     (case best of
        None \<Rightarrow> conversion
      | Some b \<Rightarrow> if flt (expectation conversion) (expectation b) then conversion else b)"

text \<open>
  The second loop of \<^verbatim>\<open>getBestConversion\<close>, \<^verbatim>\<open>while (true)\<close>. One unit of fuel is
  used for each iteration; the calls for the reduced problems of an iteration get the
  fuel that is left.
\<close>

fun search :: "nat \<Rightarrow> die \<Rightarrow> die \<Rightarrow> bool \<Rightarrow> nat \<Rightarrow> rule option \<Rightarrow> rule option" where
  "search 0 dA dB mf t best = None"
| "search (Suc fuel) dA dB mf t best =
     (case getConversionWith
             (\<lambda>subDie. case minThrows fuel (length dA) (length subDie) (length dA) 1 of
                          None \<Rightarrow> None
                        | Some t0 \<Rightarrow> search fuel dA subDie mf t0 None)
             dA dB mf t of
        None \<Rightarrow> None
      | Some conversion \<Rightarrow>
          (let best' = better best conversion
           in if fge (fadd (ofNat t) (Fin 1)) (expectation best') then Some best'
              else search fuel dA dB mf (incThrows t) (Some best')))"

definition getBestConversion :: "nat \<Rightarrow> die \<Rightarrow> die \<Rightarrow> bool \<Rightarrow> rule option" where
  "getBestConversion fuel dA dB mf =
     (case minThrows fuel (length dA) (length dB) (length dA) 1 of
        None \<Rightarrow> None
      | Some t \<Rightarrow> search fuel dA dB mf t None)"

text \<open>\<^verbatim>\<open>getConversion\<close>, whose reduced problems are solved by \<open>getBestConversion\<close>.\<close>

definition getConversion :: "nat \<Rightarrow> die \<Rightarrow> die \<Rightarrow> bool \<Rightarrow> nat \<Rightarrow> rule option" where
  "getConversion fuel dA dB mf t =
     getConversionWith (\<lambda>subDie. getBestConversion fuel dA subDie mf) dA dB mf t"

section \<open>\<^verbatim>\<open>createDie\<close>\<close>

text \<open>\<^verbatim>\<open>String(i)\<close> for a non-negative integer: its decimal digits.\<close>

fun showNat :: "nat \<Rightarrow> string" where
  "showNat n =
     (if n < 10 then [char_of (48 + n)]
      else showNat (n div 10) @ [char_of (48 + n mod 10)])"

definition createDie :: "nat \<Rightarrow> die" where
  "createDie n = (if n = 2 then [''H'', ''T''] else map showNat [1..<Suc n])"

section \<open>The expectation formula of the specification\<close>

text \<open>
  The specification gives the expectation of a rule in terms of its finished
  \<^verbatim>\<open>conversions\<close> map: with \<open>a\<close> the number of outcomes of a round, \<open>sizeB\<close> the number
  of outcomes in the repeat branch and \<open>z\<close> the sum, over the other branches, of
  \<open>(branchSize / a) * (throws + branchExpectation)\<close>, where a terminal branch has
  expectation \<open>0\<close>, the expectation is \<open>(a * z + sizeB * throws) / (a - sizeB)\<close>. The
  definitions below follow these words; the sum is taken in the order of the map, in
  double arithmetic, starting from \<open>0\<close>.
\<close>

fun isRepeat :: "tossRange \<times> branch \<Rightarrow> bool" where
  "isRepeat (rng, Self) = True"
| "isRepeat (rng, Face f) = False"
| "isRepeat (rng, Sub r) = False"

fun branchSize :: "tossRange \<times> branch \<Rightarrow> nat" where
  "branchSize (rng, b) = length (faces rng)"

fun branchExpectation :: "tossRange \<times> branch \<Rightarrow> number" where
  "branchExpectation (rng, Face f) = Fin 0"
| "branchExpectation (rng, Sub r) = expectation r"
| "branchExpectation (rng, Self) = Fin 0"

definition specTerm :: "number \<Rightarrow> nat \<Rightarrow> tossRange \<times> branch \<Rightarrow> number" where
  "specTerm a t c = fmul (fdiv (ofNat (branchSize c)) a) (fadd (ofNat t) (branchExpectation c))"

definition specZ :: "number \<Rightarrow> nat \<Rightarrow> (tossRange \<times> branch) list \<Rightarrow> number" where
  "specZ a t cs = fold (\<lambda>c z. fadd z (specTerm a t c)) (filter (\<lambda>c. \<not> isRepeat c) cs) (Fin 0)"

definition specSizeB :: "(tossRange \<times> branch) list \<Rightarrow> nat" where
  "specSizeB cs = sum_list (map branchSize (filter isRepeat cs))"

definition specExpectation :: "die \<Rightarrow> nat \<Rightarrow> (tossRange \<times> branch) list \<Rightarrow> number" where
  "specExpectation dA t cs =
     (let a = ofNat (length dA ^ t);
          sizeB = ofNat (specSizeB cs);
          z = specZ a t cs
      in fdiv (fadd (fmul a z) (fmul sizeB (ofNat t))) (fsub a sizeB))"

text \<open>
  The branches of a round, as the specification describes them. The entry of the
  partition map whose sub-die is the whole target die is the repeat branch; an entry
  whose sub-die has a single face is terminal and yields that face; any other entry is
  a reduction, whose rule is the best conversion from the source die to the sub-die.
  The branches of the round are those of the entries of
  \<^verbatim>\<open>partitionTosses(generateTosses(dieA, makeFair, throws), dieB)\<close>, in the order of the
  map; there are none when the rule of some reduction is not obtained.
\<close>

fun specBranch :: "nat \<Rightarrow> die \<Rightarrow> die \<Rightarrow> bool \<Rightarrow> tossRange \<times> die
    \<Rightarrow> (tossRange \<times> branch) option" where
  "specBranch fuel dA dB mf (rng, subDie) =
     (if length subDie = length dB then Some (rng, Self)
      else if length subDie = 1 then Some (rng, Face (subDie ! 0))
      else map_option (\<lambda>r. (rng, Sub r)) (getBestConversion fuel dA subDie mf))"

definition specConversions :: "nat \<Rightarrow> die \<Rightarrow> die \<Rightarrow> bool \<Rightarrow> nat
    \<Rightarrow> (tossRange \<times> branch) list option" where
  "specConversions fuel dA dB mf t =
     those (map (specBranch fuel dA dB mf) (partitionTosses (generateTosses dA mf t) dB))"

section \<open>The id of a toss as a number in base \<open>n\<close>\<close>

text \<open>
  The specification describes the id of a toss as its sequence of face indices read as
  a number in base \<open>n\<close>, the first draw being the most significant digit. \<open>idOf\<close> is
  this reading and \<open>digitsOf n t i\<close> is the sequence of \<open>t\<close> digits of \<open>i\<close>.
\<close>

definition idOf :: "nat \<Rightarrow> nat list \<Rightarrow> nat" where
  "idOf n ds = foldl (\<lambda>acc d. acc * n + d) 0 ds"

fun digitsOf :: "nat \<Rightarrow> nat \<Rightarrow> nat \<Rightarrow> nat list" where
  "digitsOf n 0 i = []"
| "digitsOf n (Suc t) i = digitsOf n t (i div n) @ [i mod n]"

section \<open>Auxiliary notions for the proofs\<close>

text \<open>A toss range is well formed when its two parallel arrays have the same length.\<close>

definition wfRange :: "tossRange \<Rightarrow> bool" where
  "wfRange r = (length (faces r) = length (ids r))"

text \<open>All ids held by a list of toss ranges, with multiplicity.\<close>

definition idsOf :: "tossRange list \<Rightarrow> nat multiset" where
  "idsOf rs = mset (concat (map ids rs))"

text \<open>A map entry whose assigned sub-die has as many faces as the target die.\<close>

definition fullSize :: "die \<Rightarrow> tossRange \<times> die \<Rightarrow> bool" where
  "fullSize d e = (length (snd e) = length d)"

text \<open>
  The invariant of the loop of \<^verbatim>\<open>generateTosses\<close> before the toss \<open>k\<close>: a toss of a
  class is the decoding of its id and has the key of the class; the ids of a class are
  in ascending order and below \<open>k\<close>; no class is empty and no key occurs twice.
\<close>

definition tossOk :: "die \<Rightarrow> bool \<Rightarrow> nat \<Rightarrow> string list \<Rightarrow> string list \<Rightarrow> nat \<Rightarrow> bool" where
  "tossOk fs u t key f i =
     (f = tossFacesArray fs (digitsOf (length fs) t i) \<and> chanceKey u f = key)"

definition rangeOk :: "die \<Rightarrow> bool \<Rightarrow> nat \<Rightarrow> nat \<Rightarrow> string list \<Rightarrow> tossRange \<Rightarrow> bool" where
  "rangeOk fs u t k key r =
     (length (faces r) = length (ids r) \<and> ids r \<noteq> [] \<and> sorted_wrt (<) (ids r)
      \<and> (\<forall>i \<in> set (ids r). i < k)
      \<and> (\<forall>j < length (ids r). tossOk fs u t key (faces r ! j) (ids r ! j)))"

definition classInv :: "die \<Rightarrow> bool \<Rightarrow> nat \<Rightarrow> nat \<Rightarrow> (string list \<times> tossRange) list \<Rightarrow> bool" where
  "classInv fs u t k bc =
     (distinct (map fst bc) \<and> (\<forall>p \<in> set bc. rangeOk fs u t k (fst p) (snd p)))"

section \<open>Divisors and sub-dice\<close>

lemma getDivisors_set: "set (getDivisors n) = {i. 1 \<le> i \<and> i \<le> n \<and> i dvd n}"
  by (auto simp: getDivisors_def mod_eq_0_iff_dvd)

lemma getDivisors_distinct: "distinct (getDivisors n)"
  by (simp add: getDivisors_def)

lemma getDivisors_last: "1 \<le> n \<Longrightarrow> \<exists>ds. getDivisors n = ds @ [1] \<and> 1 \<notin> set ds"
proof -
  assume "1 \<le> n"
  then have "[1..<Suc n] = Suc 0 # [Suc (Suc 0)..<Suc n]"
    by (simp add: upt_conv_Cons)
  then have "getDivisors n = filter (\<lambda>i. n mod i = 0) (rev [Suc (Suc 0)..<Suc n]) @ [1]"
    by (simp add: getDivisors_def)
  then show ?thesis by auto
qed

lemma subDice_length:
  assumes "divisor dvd length d" "sd \<in> set (subDice d divisor)"
  shows "length sd = length d div divisor"
proof -
  from assms(2) obtain i where i: "i < divisor"
    and sd: "sd = take (length d div divisor) (drop (i * (length d div divisor)) d)"
    by (auto simp: subDice_def Let_def)
  from assms(1) obtain q where q: "length d = divisor * q" by (auto simp: dvd_def)
  with i have dq: "length d div divisor = q" by simp
  from i have "Suc i * q \<le> divisor * q" by (intro mult_le_mono1) simp
  then have "q \<le> divisor * q - i * q" by simp
  with sd dq q show ?thesis by simp
qed

lemma length_subDice: "length (subDice d divisor) = divisor"
  by (simp add: subDice_def Let_def)

lemma addToResult_length: "length (addToResult srs sds) \<le> length sds"
proof -
  have "length (addToResult srs sds) \<le> length (zip srs sds)"
    unfolding addToResult_def by (simp del: length_zip)
  then show ?thesis by simp
qed

lemma addToResult_snd: "e \<in> set (addToResult srs sds) \<Longrightarrow> snd e \<in> set sds"
  by (auto simp: addToResult_def dest: set_zip_rightD)

lemma partitionStep_snd:
  "snd (partitionStep d divisor st) =
     snd st @ addToResult (snd (allocClasses divisor (fst st) (replicate divisor emptyRange)))
       (subDice d divisor)"
  by (simp add: partitionStep_def split: prod.splits)

lemma pass_fullSize:
  assumes "divisor dvd length d" "1 \<le> length d"
  shows "length (filter (fullSize d) (addToResult srs (subDice d divisor)))
         \<le> (if divisor = 1 then 1 else 0)"
proof (cases "divisor = 1")
  case True
  have "length (filter (fullSize d) (addToResult srs (subDice d divisor)))
        \<le> length (addToResult srs (subDice d divisor))" by simp
  also have "\<dots> \<le> length (subDice d divisor)" by (rule addToResult_length)
  finally show ?thesis using True by (simp add: length_subDice)
next
  case False
  have "\<not> fullSize d e" if "e \<in> set (addToResult srs (subDice d divisor))" for e
  proof -
    from that have "snd e \<in> set (subDice d divisor)" by (rule addToResult_snd)
    with assms(1) have len: "length (snd e) = length d div divisor" by (rule subDice_length)
    from assms False have "2 \<le> divisor" by (cases divisor) (auto simp: Suc_le_eq)
    with assms(2) have "length d div divisor < length d" by (intro div_less_dividend) auto
    with len show ?thesis by (simp add: fullSize_def)
  qed
  then have "filter (fullSize d) (addToResult srs (subDice d divisor)) = []"
    by (simp add: filter_empty_conv)
  with False show ?thesis by simp
qed

lemma fold_partitionStep_fullSize:
  assumes "\<forall>dv \<in> set ds. dv dvd length d" "1 \<le> length d" "distinct ds"
  shows "length (filter (fullSize d) (snd (fold (partitionStep d) ds st)))
         \<le> length (filter (fullSize d) (snd st)) + (if 1 \<in> set ds then 1 else 0)"
  using assms
proof (induction ds arbitrary: st)
  case Nil
  then show ?case by simp
next
  case (Cons dv ds)
  let ?st = "partitionStep d dv st"
  from Cons.prems have dv: "dv dvd length d" by simp
  have step: "length (filter (fullSize d) (snd ?st))
      \<le> length (filter (fullSize d) (snd st)) + (if dv = 1 then 1 else 0)"
    using pass_fullSize [OF dv Cons.prems(2)] by (simp add: partitionStep_snd)
  have "length (filter (fullSize d) (snd (fold (partitionStep d) ds ?st)))
      \<le> length (filter (fullSize d) (snd ?st)) + (if 1 \<in> set ds then 1 else 0)"
    using Cons.prems by (intro Cons.IH) auto
  with step Cons.prems(3) show ?case by (auto split: if_splits)
qed

lemma partitionTosses_full_count:
  assumes "1 \<le> length d"
  shows "length (filter (fullSize d) (partitionTosses tosses d)) \<le> 1"
proof -
  have "\<forall>dv \<in> set (getDivisors (length d)). dv dvd length d"
    by (simp add: getDivisors_set)
  from fold_partitionStep_fullSize [OF this assms getDivisors_distinct, of "(tosses, [])"]
  show ?thesis unfolding partitionTosses_def by (simp split: if_splits)
qed

text \<open>
  Claim C10. For a target die with at least one face, at most one entry of the map that
  \<^verbatim>\<open>partitionTosses\<close> returns is assigned a sub-die with as many faces as the target
  die: only the pass for the divisor 1 builds a sub-die of that size, and it builds one
  sub-die. The single assignment to \<^verbatim>\<open>sizeB\<close> in \<^verbatim>\<open>getConversion\<close> therefore happens at
  most once.
\<close>

theorem partitionTosses_one_full_size:
  "1 \<le> length d \<Longrightarrow>
   length (filter (\<lambda>(r, sd). length sd = length d) (partitionTosses tosses d)) \<le> 1"
proof -
  assume m: "1 \<le> length d"
  have eq: "(\<lambda>(r, sd). length sd = length d) = fullSize d"
    by (auto simp: fullSize_def fun_eq_iff)
  have "\<forall>dv \<in> set (getDivisors (length d)). dv dvd length d"
    by (simp add: getDivisors_set)
  from fold_partitionStep_fullSize [OF this m getDivisors_distinct, of "(tosses, [])"]
  show ?thesis unfolding eq partitionTosses_def by (simp split: if_splits)
qed

theorem partitionTosses_one_full_size_witness:
  "1 \<le> length [''H'', ''T''] \<and>
   length (filter (\<lambda>(r, sd). length sd = length [''H'', ''T''])
     (partitionTosses (generateTosses [''H'', ''T''] True 2) [''H'', ''T''])) \<le> 1"
  using partitionTosses_one_full_size [of "[''H'', ''T'']" "generateTosses [''H'', ''T''] True 2"]
  by simp

section \<open>The ids of the classes and of the partition\<close>

lemma idsOf_simps [simp]:
  "idsOf [] = {#}" "idsOf (r # rs) = mset (ids r) + idsOf rs"
  "idsOf (rs @ rs') = idsOf rs + idsOf rs'"
  by (simp_all add: idsOf_def)

subsection \<open>generateTosses\<close>

lemma addToss_ids:
  "idsOf (map snd (addToss bc k f i)) = add_mset i (idsOf (map snd bc))"
  by (induction bc k f i rule: addToss.induct) auto

lemma addToss_wf:
  "\<forall>r \<in> set (map snd bc). wfRange r \<Longrightarrow> \<forall>r \<in> set (map snd (addToss bc k f i)). wfRange r"
  by (induction bc k f i rule: addToss.induct) (auto simp: wfRange_def)

lemma fold_genStep_ids:
  "idsOf (map snd (fst (fold (genStep fs u t) is st))) = mset is + idsOf (map snd (fst st))"
  by (induction "is" arbitrary: st) (simp_all add: genStep_def Let_def addToss_ids)

lemma fold_genStep_wf:
  "\<forall>r \<in> set (map snd (fst st)). wfRange r \<Longrightarrow>
   \<forall>r \<in> set (map snd (fst (fold (genStep fs u t) is st))). wfRange r"
proof (induction "is" arbitrary: st)
  case Nil
  then show ?case by simp
next
  case (Cons i "is")
  have "\<forall>r \<in> set (map snd (fst (genStep fs u t i st))). wfRange r"
    using addToss_wf [OF Cons.prems] by (simp add: genStep_def Let_def)
  from Cons.IH [OF this] show ?case by simp
qed

lemma generateTosses_ids: "idsOf (generateTosses fs u t) = mset [0..<length fs ^ t]"
  by (simp add: generateTosses_def Let_def fold_genStep_ids)

lemma generateTosses_wf: "r \<in> set (generateTosses fs u t) \<Longrightarrow> wfRange r"
  using fold_genStep_wf [of "([], replicate t 0)" fs u t "[0..<length fs ^ t]"]
  by (auto simp: generateTosses_def Let_def)

subsection \<open>partitionTosses\<close>

lemma allocate_snoc:
  "allocate k u (srs @ [s]) =
     allocate k u srs @
       [\<lparr>faces = faces s @ take k (drop (length srs * k) (faces u)),
         ids = ids s @ take k (drop (length srs * k) (ids u))\<rparr>]"
  by (simp add: allocate_def)

lemma length_allocate [simp]: "length (allocate k u srs) = length srs"
  by (simp add: allocate_def)

lemma allocate_ids:
  "idsOf (allocate k u srs) = idsOf srs + mset (take (length srs * k) (ids u))"
proof (induction srs rule: rev_induct)
  case Nil
  then show ?case by (simp add: allocate_def)
next
  case (snoc s srs)
  have "take (Suc (length srs) * k) (ids u)
        = take (length srs * k) (ids u) @ take k (drop (length srs * k) (ids u))"
    by (simp only: mult_Suc take_add add.commute [of k])
  with snoc show ?case by (simp add: allocate_snoc)
qed

lemma allocate_wf:
  assumes "\<forall>s \<in> set srs. wfRange s" "wfRange u"
  shows "\<forall>s \<in> set (allocate k u srs). wfRange s"
  using assms by (auto simp: allocate_def wfRange_def dest: set_zip_rightD)

lemma allocClasses_length: "length (snd (allocClasses dv ts srs)) = length srs"
  by (induction dv ts srs rule: allocClasses.induct) (auto simp: Let_def split: prod.splits)

lemma allocClasses_wf:
  assumes "\<forall>u \<in> set ts. wfRange u" "\<forall>s \<in> set srs. wfRange s"
  shows "(\<forall>u \<in> set (fst (allocClasses dv ts srs)). wfRange u) \<and>
         (\<forall>s \<in> set (snd (allocClasses dv ts srs)). wfRange s)"
  using assms
proof (induction dv ts srs rule: allocClasses.induct)
  case (1 divisor subRanges)
  then show ?case by simp
next
  case (2 divisor u rest subRanges)
  let ?k = "length (faces u) div divisor"
  from "2.prems" have u: "wfRange u" and rest: "\<forall>u \<in> set rest. wfRange u" by simp_all
  show ?case
  proof (cases "?k = 0")
    case True
    with "2.IH"(1) [OF refl True rest "2.prems"(2)] u show ?thesis
      by (simp add: Let_def case_prod_beta)
  next
    case False
    have a: "\<forall>s \<in> set (allocate ?k u subRanges). wfRange s"
      using "2.prems"(2) u by (rule allocate_wf)
    have u': "wfRange \<lparr>faces = drop n (faces u), ids = drop n (ids u)\<rparr>" for n
      using u by (simp add: wfRange_def)
    show ?thesis
    proof (cases "length (faces u) = divisor * ?k")
      case True
      with False "2.IH"(2) [OF refl False refl refl True rest a] show ?thesis
        by (simp add: Let_def)
    next
      case neq: False
      with False "2.IH"(3) [OF refl False refl refl neq refl rest a] u' show ?thesis
        by (simp add: Let_def case_prod_beta)
    qed
  qed
qed

lemma allocClasses_ids:
  assumes "\<forall>u \<in> set ts. wfRange u" "length srs = dv"
  shows "idsOf (fst (allocClasses dv ts srs)) + idsOf (snd (allocClasses dv ts srs))
         = idsOf ts + idsOf srs"
  using assms
proof (induction dv ts srs rule: allocClasses.induct)
  case (1 divisor subRanges)
  then show ?case by simp
next
  case (2 divisor u rest subRanges)
  let ?k = "length (faces u) div divisor"
  from "2.prems" have u: "wfRange u" and rest: "\<forall>u \<in> set rest. wfRange u" by simp_all
  show ?case
  proof (cases "?k = 0")
    case True
    with "2.IH"(1) [OF refl True rest "2.prems"(2)] show ?thesis
      by (simp add: Let_def case_prod_beta)
  next
    case False
    have len: "length (allocate ?k u subRanges) = divisor"
      using "2.prems"(2) by simp
    have a: "idsOf (allocate ?k u subRanges)
             = idsOf subRanges + mset (take (divisor * ?k) (ids u))"
      using "2.prems"(2) by (simp add: allocate_ids)
    show ?thesis
    proof (cases "length (faces u) = divisor * ?k")
      case True
      then have "take (divisor * ?k) (ids u) = ids u"
        using u by (simp add: wfRange_def)
      with False True "2.IH"(2) [OF refl False refl refl True rest len] a show ?thesis
        by (simp add: Let_def)
    next
      case neq: False
      have "mset (ids u) = mset (take (divisor * ?k) (ids u)) + mset (drop (divisor * ?k) (ids u))"
        by (metis append_take_drop_id mset_append)
      with False neq "2.IH"(3) [OF refl False refl refl neq refl rest len] a show ?thesis
        by (simp add: Let_def case_prod_beta)
    qed
  qed
qed

lemma allocClasses_one:
  assumes "\<forall>u \<in> set ts. wfRange u"
  shows "idsOf (fst (allocClasses (Suc 0) ts srs)) = {#}"
  using assms
proof (induction ts arbitrary: srs)
  case Nil
  then show ?case by simp
next
  case (Cons u ts)
  then show ?case
    by (cases "length (faces u) = 0") (auto simp: Let_def wfRange_def case_prod_beta)
qed

lemma sortById_ids: "wfRange sr \<Longrightarrow> mset (ids (sortById sr)) = mset (ids sr)"
proof -
  assume "wfRange sr"
  then have "map snd (zip (faces sr) (ids sr)) = ids sr"
    by (simp add: wfRange_def)
  then have "mset (ids sr) = image_mset snd (mset (zip (faces sr) (ids sr)))"
    by (metis mset_map)
  then show ?thesis by (simp add: sortById_def Let_def)
qed

lemma addToResult_ids:
  assumes "\<forall>s \<in> set srs. wfRange s" "length srs = length sds"
  shows "idsOf (map fst (addToResult srs sds)) = idsOf srs"
  using assms
proof (induction srs arbitrary: sds)
  case Nil
  then show ?case by (simp add: addToResult_def)
next
  case (Cons s srs)
  then obtain sd sds' where sds: "sds = sd # sds'" by (cases sds) auto
  with Cons.prems have IH: "idsOf (map fst (addToResult srs sds')) = idsOf srs"
    by (intro Cons.IH) auto
  from Cons.prems have s: "wfRange s" by simp
  show ?case
  proof (cases "length (faces s) = 0")
    case True
    with s have "ids s = []" by (simp add: wfRange_def)
    with IH True show ?thesis unfolding sds by (simp add: addToResult_def)
  next
    case False
    with IH sortById_ids [OF s] show ?thesis unfolding sds by (simp add: addToResult_def)
  qed
qed

lemma emptyRange_wf: "\<forall>s \<in> set (replicate n emptyRange). wfRange s"
  by (simp add: wfRange_def emptyRange_def)

lemma idsOf_replicate_empty [simp]: "idsOf (replicate n emptyRange) = {#}"
  by (induction n) (simp_all add: emptyRange_def)

lemma partitionStep_ids:
  assumes "\<forall>u \<in> set (fst st). wfRange u"
  shows "idsOf (fst (partitionStep d dv st)) + idsOf (map fst (snd (partitionStep d dv st)))
         = idsOf (fst st) + idsOf (map fst (snd st))"
    and "\<forall>u \<in> set (fst (partitionStep d dv st)). wfRange u"
proof -
  let ?a = "allocClasses dv (fst st) (replicate dv emptyRange)"
  have wf: "(\<forall>u \<in> set (fst ?a). wfRange u) \<and> (\<forall>s \<in> set (snd ?a). wfRange s)"
    using assms emptyRange_wf by (rule allocClasses_wf)
  have len: "length (snd ?a) = length (subDice d dv)"
    by (simp add: allocClasses_length length_subDice)
  have "idsOf (fst ?a) + idsOf (snd ?a) = idsOf (fst st)"
    using allocClasses_ids [OF assms, of "replicate dv emptyRange" dv] by simp
  moreover have "idsOf (map fst (addToResult (snd ?a) (subDice d dv))) = idsOf (snd ?a)"
    using wf len by (intro addToResult_ids) auto
  ultimately show "idsOf (fst (partitionStep d dv st)) + idsOf (map fst (snd (partitionStep d dv st)))
         = idsOf (fst st) + idsOf (map fst (snd st))"
    by (simp add: partitionStep_def case_prod_beta)
  from wf show "\<forall>u \<in> set (fst (partitionStep d dv st)). wfRange u"
    by (simp add: partitionStep_def case_prod_beta)
qed

lemma fold_partitionStep_ids:
  assumes "\<forall>u \<in> set (fst st). wfRange u"
  shows "idsOf (fst (fold (partitionStep d) ds st))
           + idsOf (map fst (snd (fold (partitionStep d) ds st)))
         = idsOf (fst st) + idsOf (map fst (snd st))
         \<and> (\<forall>u \<in> set (fst (fold (partitionStep d) ds st)). wfRange u)"
  using assms
proof (induction ds arbitrary: st)
  case Nil
  then show ?case by simp
next
  case (Cons dv ds)
  from Cons.IH [OF partitionStep_ids(2) [OF Cons.prems]] partitionStep_ids(1) [OF Cons.prems]
  show ?case by simp
qed

lemma partitionStep_one:
  assumes "\<forall>u \<in> set (fst st). wfRange u"
  shows "idsOf (fst (partitionStep d (Suc 0) st)) = {#}"
  using allocClasses_one [OF assms] by (simp add: partitionStep_def case_prod_beta)

lemma partitionTosses_ids:
  assumes "\<forall>u \<in> set tosses. wfRange u" "1 \<le> length d"
  shows "idsOf (map fst (partitionTosses tosses d)) = idsOf tosses"
proof -
  from getDivisors_last [OF assms(2)] obtain ds where ds: "getDivisors (length d) = ds @ [1]"
    by blast
  let ?st = "fold (partitionStep d) ds (tosses, [])"
  have st: "idsOf (fst ?st) + idsOf (map fst (snd ?st)) = idsOf tosses"
    and wf: "\<forall>u \<in> set (fst ?st). wfRange u"
    using fold_partitionStep_ids [of "(tosses, [])" d ds] assms(1) by simp_all
  have "idsOf (fst (partitionStep d (Suc 0) ?st))
          + idsOf (map fst (snd (partitionStep d (Suc 0) ?st)))
        = idsOf (fst ?st) + idsOf (map fst (snd ?st))"
    using wf by (rule partitionStep_ids(1))
  with partitionStep_one [OF wf] st
  have "idsOf (map fst (snd (partitionStep d (Suc 0) ?st))) = idsOf tosses" by simp
  then show ?thesis by (simp add: partitionTosses_def ds)
qed

text \<open>
  Claim C2. For a target die with at least one face, the ids of the toss ranges of the
  map built by \<^verbatim>\<open>partitionTosses(generateTosses(dieA, makeFair, throws), dieB)\<close>, taken
  together with their multiplicity, are the integers from \<open>0\<close> below
  \<open>length dieA ^ throws\<close>, each one once: every id lies in exactly one toss range of the
  map and occurs there once. This holds for every source die, flag and number of throws,
  in particular for dice with at least two faces and \<open>throws \<ge> 1\<close>.
\<close>

theorem partition_cover:
  assumes "1 \<le> length dB"
  shows "mset (concat (map (ids \<circ> fst) (partitionTosses (generateTosses dA mf t) dB)))
         = mset [0..<length dA ^ t]"
proof -
  have "mset (concat (map (ids \<circ> fst) (partitionTosses (generateTosses dA mf t) dB)))
      = idsOf (map fst (partitionTosses (generateTosses dA mf t) dB))"
    by (simp add: idsOf_def)
  also have "\<dots> = idsOf (generateTosses dA mf t)"
    using generateTosses_wf assms by (intro partitionTosses_ids) auto
  finally show ?thesis by (simp add: generateTosses_ids)
qed

theorem partition_cover_witness:
  "1 \<le> length [''1'', ''2'', ''3''] \<and>
   mset (concat (map (ids \<circ> fst)
     (partitionTosses (generateTosses [''H'', ''T''] False 2) [''1'', ''2'', ''3''])))
   = mset [0..<length [''H'', ''T''] ^ 2]"
  using partition_cover [of "[''1'', ''2'', ''3'']" "[''H'', ''T'']" False 2]
  by simp

section \<open>Evaluating the numbers\<close>

text \<open>Rewrite rules with which the simplifier computes the operations on given doubles.\<close>

lemma bitlen_numeral_simps [simp]:
  "bitlen 1 = 1"
  "bitlen (numeral Num.One) = 1"
  "bitlen (numeral (Num.Bit0 n)) = bitlen (numeral n) + 1"
  "bitlen (numeral (Num.Bit1 n)) = bitlen (numeral n) + 1"
proof -
  show "bitlen 1 = 1" by (subst compute_bitlen) simp
  then show "bitlen (numeral Num.One) = 1" by simp
  have "bitlen (numeral (Num.Bit0 n)) = bitlen (numeral (Num.Bit0 n) div 2) + 1"
    by (subst compute_bitlen) simp
  then show "bitlen (numeral (Num.Bit0 n)) = bitlen (numeral n) + 1" by simp
  have "bitlen (numeral (Num.Bit1 n)) = bitlen (numeral (Num.Bit1 n) div 2) + 1"
    by (subst compute_bitlen) simp
  then show "bitlen (numeral (Num.Bit1 n)) = bitlen (numeral n) + 1" by simp
qed

lemma floor_rat_numeral [simp]:
  "\<lfloor>numeral a / numeral b :: rat\<rfloor> = numeral a div numeral b"
  by (metis floor_divide_of_int_eq of_int_numeral)

lemma floor_rat_one_numeral [simp]:
  "\<lfloor>1 / numeral b :: rat\<rfloor> = 1 div numeral b"
  by (metis floor_divide_of_int_eq of_int_numeral of_int_1)

lemma ceiling_rat_numeral [simp]:
  "\<lceil>numeral a / numeral b :: rat\<rceil> = - (- numeral a div numeral b)"
  by (metis ceiling_divide_eq_div of_int_numeral)

lemmas fl_eval = rnd_def ilog2_def pow2_def roundEven_def Let_def ofNat_def fsub_def infSign_def

section \<open>Properties of the rounding\<close>

text \<open>
  Powers of two, the binade of a positive rational and the rounding to an integer; then
  the facts about doubles that the claims need: integers up to \<open>2 ^ 53\<close> are
  doubles, a double rounds to itself, and a value of at least \<open>1\<close> does not round
  below \<open>1\<close>.
\<close>

lemma pow2_powi: "pow2 k = 2 powi k"
  by (simp add: pow2_def power_int_def inverse_eq_divide power_one_over)

lemma pow2_pos [simp]: "0 < pow2 k"
  by (simp add: pow2_powi)

lemma pow2_nonneg [simp]: "0 \<le> pow2 k"
  by (simp add: pow2_powi)

lemma pow2_neq_0 [simp]: "pow2 k \<noteq> 0"
  by (simp add: pow2_powi)

lemma pow2_add: "pow2 (a + b) = pow2 a * pow2 b"
  by (simp add: pow2_powi power_int_add)

lemma pow2_diff: "pow2 (a - b) = pow2 a / pow2 b"
  by (simp add: pow2_powi power_int_diff)

lemma pow2_mono: "a \<le> b \<Longrightarrow> pow2 a \<le> pow2 b"
  by (simp add: pow2_powi power_int_increasing)

lemma pow2_strict_mono: "a < b \<Longrightarrow> pow2 a < pow2 b"
  by (simp add: pow2_powi power_int_strict_increasing)

lemma pow2_nat: "pow2 (int n) = 2 ^ n"
  by (simp add: pow2_def)

lemma pow2_0 [simp]: "pow2 0 = 1"
  by (simp add: pow2_def)

lemma pow2_1 [simp]: "pow2 1 = 2"
  by (simp add: pow2_def)

lemma pow2_Suc: "pow2 (e + 1) = 2 * pow2 e"
  by (simp add: pow2_add)

lemma ilog2_bounds:
  assumes "0 < x"
  shows "pow2 (ilog2 x) \<le> x" and "x < pow2 (ilog2 x + 1)"
proof -
  have "pow2 (ilog2 x) \<le> x \<and> x < pow2 (ilog2 x + 1)"
  proof (cases "1 \<le> x")
    case True
    define k where "k = \<lfloor>x\<rfloor>"
    have k: "1 \<le> k" using True by (simp add: k_def le_floor_iff)
    then have kpos: "0 < k" by simp
    from bitlen_bounds [OF kpos]
    have A: "2 ^ nat (bitlen k - 1) \<le> k" and B: "k < 2 ^ nat (bitlen k)" by simp_all
    have b1: "1 \<le> bitlen k" using kpos by (simp add: bitlen_alt_def)
    have e: "ilog2 x = bitlen k - 1" using True by (simp add: ilog2_def k_def)
    have "(of_int (2 ^ nat (bitlen k - 1)) :: rat) \<le> of_int k"
      using A by (simp only: of_int_le_iff)
    also have "\<dots> \<le> x" by (simp add: k_def)
    finally have lo: "pow2 (ilog2 x) \<le> x" using b1 by (simp add: e pow2_def)
    have "k + 1 \<le> 2 ^ nat (bitlen k)" using B by simp
    then have "(of_int (k + 1) :: rat) \<le> of_int (2 ^ nat (bitlen k))"
      by (simp only: of_int_le_iff)
    moreover have "x < of_int (k + 1)" unfolding k_def of_int_add of_int_1 by linarith
    ultimately have "x < of_int (2 ^ nat (bitlen k))" by linarith
    then have hi: "x < pow2 (ilog2 x + 1)" using b1 by (simp add: e pow2_def)
    from lo hi show ?thesis ..
  next
    case False
    define y where "y = 1 / x"
    define c where "c = \<lceil>y\<rceil> - 1"
    from assms False have y1: "1 < y" by (simp add: y_def)
    then have "1 < \<lceil>y\<rceil>" by (simp add: less_ceiling_iff)
    then have cpos: "0 < c" by (simp add: c_def)
    from bitlen_bounds [OF cpos]
    have A: "2 ^ nat (bitlen c - 1) \<le> c" and B: "c < 2 ^ nat (bitlen c)" by simp_all
    have b1: "1 \<le> bitlen c" using cpos by (simp add: bitlen_alt_def)
    have e: "ilog2 x = - bitlen c" using False by (simp add: ilog2_def c_def y_def)
    have "\<lceil>y\<rceil> \<le> 2 ^ nat (bitlen c)" using B by (simp add: c_def)
    then have "y \<le> of_int (2 ^ nat (bitlen c))" by (simp only: ceiling_le_iff)
    then have yle: "y \<le> 2 ^ nat (bitlen c)" by simp
    have "2 ^ nat (bitlen c - 1) < \<lceil>y\<rceil>" using A by (simp add: c_def)
    then have "of_int (2 ^ nat (bitlen c - 1)) < y" by (simp only: less_ceiling_iff)
    then have ygt: "2 ^ nat (bitlen c - 1) < y" by simp
    have xy: "x = 1 / y" using assms by (simp add: y_def)
    have ypos: "0 < y" using y1 by simp
    have "1 / 2 ^ nat (bitlen c) \<le> 1 / y"
      using yle ypos by (intro divide_left_mono) simp_all
    then have lo: "pow2 (ilog2 x) \<le> x" unfolding e using b1 by (simp add: pow2_def xy)
    have "1 / y < 1 / 2 ^ nat (bitlen c - 1)"
      using ygt ypos by (intro divide_strict_left_mono mult_pos_pos) simp_all
    moreover have "pow2 (ilog2 x + 1) = 1 / 2 ^ nat (bitlen c - 1)"
      using b1 by (cases "bitlen c = 1") (simp_all add: e pow2_def)
    ultimately have hi: "x < pow2 (ilog2 x + 1)" by (simp only: xy [symmetric])
    from lo hi show ?thesis ..
  qed
  then show "pow2 (ilog2 x) \<le> x" and "x < pow2 (ilog2 x + 1)" by simp_all
qed

lemma ilog2_unique:
  assumes "pow2 e \<le> x" "x < pow2 (e + 1)"
  shows "ilog2 x = e"
proof -
  have x: "0 < x" using assms(1) pow2_pos [of e] by linarith
  note b = ilog2_bounds [OF x]
  have "\<not> ilog2 x < e"
  proof
    assume "ilog2 x < e"
    then have "pow2 (ilog2 x + 1) \<le> pow2 e" by (intro pow2_mono) simp
    with b(2) assms(1) show False by linarith
  qed
  moreover have "\<not> e < ilog2 x"
  proof
    assume "e < ilog2 x"
    then have "pow2 (e + 1) \<le> pow2 (ilog2 x)" by (intro pow2_mono) simp
    with b(1) assms(2) show False by linarith
  qed
  ultimately show ?thesis by simp
qed

lemma roundEven_of_int [simp]: "roundEven (of_int k) = k"
  by (simp add: roundEven_def)

lemma roundEven_cases:
  "roundEven m = \<lfloor>m\<rfloor> \<and> m - of_int \<lfloor>m\<rfloor> \<le> 1 / 2
   \<or> roundEven m = \<lfloor>m\<rfloor> + 1 \<and> 1 / 2 \<le> m - of_int \<lfloor>m\<rfloor>"
  by (auto simp: roundEven_def Let_def)

lemma roundEven_upper: "of_int (roundEven m) \<le> m + 1 / 2"
proof -
  have f: "of_int \<lfloor>m\<rfloor> \<le> m" by simp
  from roundEven_cases [of m] show ?thesis
  proof (elim disjE conjE)
    assume "roundEven m = \<lfloor>m\<rfloor>"
    with f show ?thesis by (simp only: of_int_add of_int_1 | linarith)+
  next
    assume "roundEven m = \<lfloor>m\<rfloor> + 1" "1 / 2 \<le> m - of_int \<lfloor>m\<rfloor>"
    then show ?thesis by (simp only: of_int_add of_int_1 | linarith)+
  qed
qed

lemma roundEven_lower: "m - 1 / 2 \<le> of_int (roundEven m)"
proof -
  have f: "m < of_int \<lfloor>m\<rfloor> + 1" by linarith
  from roundEven_cases [of m] show ?thesis
  proof (elim disjE conjE)
    assume "roundEven m = \<lfloor>m\<rfloor>" "m - of_int \<lfloor>m\<rfloor> \<le> 1 / 2"
    then show ?thesis by (simp only: of_int_add of_int_1 | linarith)+
  next
    assume "roundEven m = \<lfloor>m\<rfloor> + 1"
    with f show ?thesis by (simp only: of_int_add of_int_1 | linarith)+
  qed
qed

lemma roundEven_ge: "of_int k \<le> m \<Longrightarrow> k \<le> roundEven m"
proof -
  assume "of_int k \<le> m"
  then have "k \<le> \<lfloor>m\<rfloor>" by (simp add: le_floor_iff)
  with roundEven_cases [of m] show ?thesis by auto
qed

lemma roundEven_le: "m \<le> of_int k \<Longrightarrow> roundEven m \<le> k"
proof -
  assume a: "m \<le> of_int k"
  show ?thesis
  proof (cases "m = of_int k")
    case True
    then show ?thesis by simp
  next
    case False
    with a have "m < of_int k" by simp
    then have "\<lfloor>m\<rfloor> < k" by (simp add: floor_less_iff)
    with roundEven_cases [of m] show ?thesis by auto
  qed
qed

lemma roundEven_mono: "m \<le> m' \<Longrightarrow> roundEven m \<le> roundEven m'"
proof -
  assume le: "m \<le> m'"
  have fl: "\<lfloor>m\<rfloor> \<le> \<lfloor>m'\<rfloor>" using le by (rule floor_mono)
  show ?thesis
  proof (cases "\<lfloor>m\<rfloor> = \<lfloor>m'\<rfloor>")
    case True
    with le show ?thesis by (auto simp: roundEven_def Let_def)
  next
    case False
    with fl have "\<lfloor>m\<rfloor> + 1 \<le> \<lfloor>m'\<rfloor>" by simp
    with roundEven_cases [of m] roundEven_cases [of m'] show ?thesis by auto
  qed
qed


lemma pow2_less_cancel: "pow2 a \<le> x \<Longrightarrow> x < pow2 b \<Longrightarrow> a < b"
proof (rule ccontr)
  assume "pow2 a \<le> x" "x < pow2 b" "\<not> a < b"
  then have "pow2 b \<le> pow2 a" by (intro pow2_mono) simp
  with \<open>pow2 a \<le> x\<close> \<open>x < pow2 b\<close> show False by linarith
qed

lemma rnd_0 [simp]: "rnd 0 = Fin 0"
  by (simp add: rnd_def)

lemma rnd_pos_unfold:
  "0 < x \<Longrightarrow> rnd x =
     (if pow2 1024 \<le> of_int (roundEven (x / pow2 (max (ilog2 x) (- 1022) - 52)))
           * pow2 (max (ilog2 x) (- 1022) - 52)
      then PInf
      else Fin (of_int (roundEven (x / pow2 (max (ilog2 x) (- 1022) - 52)))
           * pow2 (max (ilog2 x) (- 1022) - 52)))"
  by (simp add: rnd_def Let_def)

lemma rnd_dyadic_aux:
  assumes k: "0 < k" "k < 2 ^ 53" and q: "- 1074 \<le> q"
    and fin: "of_int k * pow2 q < pow2 1024"
  shows "rnd (of_int k * pow2 q) = Fin (of_int k * pow2 q)"
proof -
  define x where "x = (of_int k :: rat) * pow2 q"
  have x: "0 < x" using k(1) by (simp add: x_def)
  define q' where "q' = max (ilog2 x) (- 1022) - 52"
  have "(of_int k :: rat) < of_int (2 ^ 53)" using k(2) by (simp only: of_int_less_iff)
  then have "(of_int k :: rat) < pow2 53" by (simp add: pow2_def)
  then have "x < pow2 53 * pow2 q" unfolding x_def by (intro mult_strict_right_mono) simp_all
  then have "x < pow2 (53 + q)" by (simp add: pow2_add)
  with ilog2_bounds(1) [OF x] have "ilog2 x < 53 + q" by (rule pow2_less_cancel)
  with q have le: "q' \<le> q" by (simp add: q'_def)
  define n where "n = nat (q - q')"
  have qn: "q = q' + int n" using le by (simp add: n_def)
  have "x / pow2 q' = of_int k * 2 ^ n"
    by (simp add: x_def qn pow2_add pow2_nat)
  then have m: "x / pow2 q' = of_int (k * 2 ^ n)" by simp
  have y: "of_int (roundEven (x / pow2 q')) * pow2 q' = x"
    unfolding m roundEven_of_int by (simp add: x_def qn pow2_add pow2_nat)
  from fin have "\<not> pow2 1024 \<le> x" by (simp add: x_def)
  with y show ?thesis
    unfolding x_def [symmetric] rnd_pos_unfold [OF x] q'_def [symmetric] by simp
qed

lemma rnd_dyadic:
  assumes k: "0 < k" "k \<le> 2 ^ 53" and q: "- 1074 \<le> q"
    and fin: "of_int k * pow2 q < pow2 1024"
  shows "rnd (of_int k * pow2 q) = Fin (of_int k * pow2 q)"
proof (cases "k = 2 ^ 53")
  case False
  with k have "k < 2 ^ 53" by simp
  with k(1) show ?thesis using q fin by (rule rnd_dyadic_aux)
next
  case True
  have eq: "(of_int k :: rat) * pow2 q = of_int (2 ^ 52) * pow2 (q + 1)"
    by (simp add: True pow2_Suc)
  have "rnd (of_int (2 ^ 52) * pow2 (q + 1)) = Fin (of_int (2 ^ 52) * pow2 (q + 1))"
    using q fin unfolding eq by (intro rnd_dyadic_aux) simp_all
  then show ?thesis unfolding eq .
qed

lemma pow2_53_less: "(2::rat) ^ 53 < pow2 1024"
proof -
  have "pow2 53 < pow2 1024" by (rule pow2_strict_mono) simp
  then show ?thesis by (simp add: pow2_def)
qed

lemma rnd_of_nat_exact: "n \<le> 2 ^ 53 \<Longrightarrow> rnd (of_nat n) = Fin (of_nat n)"
proof (cases "n = 0")
  case True
  then show ?thesis by simp
next
  case False
  assume n: "n \<le> 2 ^ 53"
  have "(of_nat n :: rat) \<le> of_nat (2 ^ 53)" using n by (simp only: of_nat_le_iff)
  then have "(of_nat n :: rat) \<le> 2 ^ 53" by simp
  with pow2_53_less have fin: "of_int (int n) * pow2 0 < pow2 1024" by simp
  have "int n \<le> 2 ^ 53" using n by (metis of_nat_le_iff of_nat_numeral of_nat_power)
  with False have "rnd (of_int (int n) * pow2 0) = Fin (of_int (int n) * pow2 0)"
    using fin by (intro rnd_dyadic) simp_all
  then show ?thesis by simp
qed

lemma ofNat_exact: "n \<le> 2 ^ 53 \<Longrightarrow> ofNat n = Fin (of_nat n)"
  by (simp add: ofNat_def rnd_of_nat_exact)

lemma ilog2_nonneg: "1 \<le> x \<Longrightarrow> 0 \<le> ilog2 x"
proof -
  assume x: "1 \<le> x"
  then have "0 < x" by simp
  from ilog2_bounds(2) [OF this] x have "pow2 0 \<le> x" "x < pow2 (ilog2 x + 1)" by simp_all
  then have "0 < ilog2 x + 1" by (rule pow2_less_cancel)
  then show ?thesis by simp
qed

lemma rnd_ge_one:
  assumes "1 \<le> x"
  shows "rnd x = PInf \<or> (\<exists>y. rnd x = Fin y \<and> 1 \<le> y)"
proof -
  have x: "0 < x" using assms by simp
  define e where "e = ilog2 x"
  have e: "0 \<le> e" unfolding e_def using assms by (rule ilog2_nonneg)
  define q where "q = max e (- 1022) - 52"
  have q: "q = e - 52" using e by (simp add: q_def)
  define r where "r = roundEven (x / pow2 q)"
  have "pow2 e / pow2 q \<le> x / pow2 q"
    using ilog2_bounds(1) [OF x] by (intro divide_right_mono) (simp_all add: e_def)
  moreover have "pow2 e / pow2 q = pow2 52"
    by (simp add: pow2_diff [symmetric] q)
  moreover have "pow2 52 = of_int (2 ^ 52)"
    by (simp add: pow2_def)
  ultimately have "of_int (2 ^ 52) \<le> x / pow2 q"
    by (simp only:)
  then have "2 ^ 52 \<le> r" unfolding r_def by (rule roundEven_ge)
  then have "(of_int (2 ^ 52) :: rat) \<le> of_int r" by (simp only: of_int_le_iff)
  then have a: "of_int (2 ^ 52) * pow2 q \<le> of_int r * pow2 q"
    by (intro mult_right_mono) simp_all
  have b: "of_int (2 ^ 52) * pow2 q = pow2 e"
  proof -
    have "pow2 e = pow2 (52 + q)" by (simp add: q)
    also have "\<dots> = pow2 52 * pow2 q" by (rule pow2_add)
    finally show ?thesis by (simp add: pow2_def)
  qed
  have c: "1 \<le> pow2 e" using pow2_mono [OF e] by simp
  from a b c have "1 \<le> of_int r * pow2 q" by linarith
  then show ?thesis
    unfolding rnd_pos_unfold [OF x] e_def [symmetric] q_def [symmetric] r_def [symmetric]
    by simp
qed

lemma ofNat_ge_one: "1 \<le> n \<Longrightarrow> ofNat n = PInf \<or> (\<exists>y. ofNat n = Fin y \<and> 1 \<le> y)"
  unfolding ofNat_def by (rule rnd_ge_one) simp


lemma rnd_pos_form:
  assumes x: "0 < x"
  shows "rnd x = PInf \<or>
    (\<exists>k q. 0 \<le> k \<and> k \<le> 2 ^ 53 \<and> - 1074 \<le> q \<and> of_int k * pow2 q < pow2 1024
       \<and> rnd x = Fin (of_int k * pow2 q))"
proof -
  define e where "e = ilog2 x"
  define q where "q = max e (- 1022) - 52"
  define r where "r = roundEven (x / pow2 q)"
  have q1: "- 1074 \<le> q" and q2: "e + 1 \<le> q + 53" by (simp_all add: q_def)
  have "of_int 0 \<le> x / pow2 q" using x by simp
  then have r0: "0 \<le> r" unfolding r_def by (rule roundEven_ge)
  have "x < pow2 (e + 1)" unfolding e_def using x by (rule ilog2_bounds)
  also have "\<dots> \<le> pow2 (q + 53)" using q2 by (rule pow2_mono)
  also have "\<dots> = pow2 q * pow2 53" by (rule pow2_add)
  finally have "x / pow2 q < pow2 53" by (simp add: pos_divide_less_eq mult.commute)
  moreover have "pow2 53 = of_int (2 ^ 53)" by (simp add: pow2_def)
  ultimately have "x / pow2 q \<le> of_int (2 ^ 53)" by (simp only: less_imp_le)
  then have r1: "r \<le> 2 ^ 53" unfolding r_def by (rule roundEven_le)
  show ?thesis
  proof (cases "pow2 1024 \<le> of_int r * pow2 q")
    case True
    then show ?thesis
      unfolding rnd_pos_unfold [OF x] e_def [symmetric] q_def [symmetric] r_def [symmetric]
      by simp
  next
    case False
    then have "rnd x = Fin (of_int r * pow2 q)"
      unfolding rnd_pos_unfold [OF x] e_def [symmetric] q_def [symmetric] r_def [symmetric]
      by simp
    with r0 r1 q1 False show ?thesis by (intro disjI2 exI [of _ r] exI [of _ q]) simp
  qed
qed

lemma rnd_idem_pos:
  assumes "0 < x" "rnd x = Fin y"
  shows "rnd y = Fin y"
proof -
  from rnd_pos_form [OF assms(1)] assms(2) obtain k q
    where k: "0 \<le> k" "k \<le> 2 ^ 53" and q: "- 1074 \<le> q"
      and fin: "of_int k * pow2 q < pow2 1024" and y: "y = of_int k * pow2 q"
    by auto
  show ?thesis
  proof (cases "k = 0")
    case True
    then show ?thesis by (simp add: y)
  next
    case False
    with k have "0 < k" by simp
    then show ?thesis unfolding y using k(2) q fin by (rule rnd_dyadic)
  qed
qed

lemma rnd_neg: "rnd (- x) = fneg (rnd x)"
  by (simp add: rnd_def Let_def)

lemma rnd_idem:
  assumes "rnd x = Fin y"
  shows "rnd y = Fin y"
proof -
  consider "x = 0" | "0 < x" | "x < 0" by linarith
  then show ?thesis
  proof cases
    case 1
    with assms show ?thesis by auto
  next
    case 2
    then show ?thesis using assms by (rule rnd_idem_pos)
  next
    case 3
    then have pos: "0 < - x" by simp
    have "rnd (- x) = Fin (- y)" using assms by (simp add: rnd_neg)
    with pos have "rnd (- y) = Fin (- y)" by (rule rnd_idem_pos)
    then have "fneg (rnd y) = Fin (- y)" by (simp add: rnd_neg)
    then show ?thesis by (cases "rnd y") simp_all
  qed
qed

lemma fadd_rnd_zero: "fadd (rnd x) (Fin 0) = rnd x"
  by (cases "rnd x") (simp_all add: rnd_idem)

lemma fadd_ofNat_zero: "fadd (ofNat t) (Fin 0) = ofNat t"
  unfolding ofNat_def by (rule fadd_rnd_zero)

lemma fadd_ofNat_one:
  assumes "t \<le> 2 ^ 53"
  shows "fadd (ofNat t) (Fin 1) = Fin (of_nat (if t < 2 ^ 53 then t + 1 else t))"
proof (cases "t < 2 ^ 53")
  case True
  then have "rnd (of_nat (t + 1)) = Fin (of_nat (t + 1))" by (intro rnd_of_nat_exact) simp
  with True assms show ?thesis by (simp add: ofNat_exact add.commute)
next
  case False
  with assms have t: "t = 2 ^ 53" by simp
  have "rnd (2 ^ 53 + 1) = Fin (2 ^ 53)" by (simp add: fl_eval)
  then show ?thesis using assms by (simp add: ofNat_exact t)
qed

lemma expectation_all_repeat:
  assumes a: "1 \<le> a" and t: "1 \<le> t"
  shows "fdiv (fadd (fmul (ofNat a) (Fin 0)) (fmul (ofNat a) (ofNat t)))
              (fsub (ofNat a) (ofNat a)) \<in> {PInf, NaN}"
proof -
  from ofNat_ge_one [OF a] consider "ofNat a = PInf" | y where "ofNat a = Fin y" "1 \<le> y"
    by blast
  then show ?thesis
  proof cases
    case 1
    then show ?thesis by (simp add: fsub_def)
  next
    case A: (2 y)
    from ofNat_ge_one [OF t] consider "ofNat t = PInf" | u where "ofNat t = Fin u" "1 \<le> u"
      by blast
    then show ?thesis
    proof cases
      case 1
      with A show ?thesis by (simp add: fsub_def infSign_def)
    next
      case T: (2 u)
      have "1 * 1 \<le> y * u" using A(2) T(2) by (intro mult_mono) simp_all
      then have "1 \<le> y * u" by simp
      from rnd_ge_one [OF this]
      consider "rnd (y * u) = PInf" | w where "rnd (y * u) = Fin w" "1 \<le> w" by blast
      then show ?thesis
      proof cases
        case 1
        with A T show ?thesis by (simp add: fsub_def infSign_def)
      next
        case W: (2 w)
        from rnd_ge_one [OF W(2)]
        consider "rnd w = PInf" | v where "rnd w = Fin v" "1 \<le> v" by blast
        then show ?thesis
        proof cases
          case 1
          with A T W show ?thesis by (simp add: fsub_def infSign_def)
        next
          case (2 v)
          with A T W show ?thesis by (simp add: fsub_def infSign_def)
        qed
      qed
    qed
  qed
qed

lemma expectation_empty_map:
  assumes "1 \<le> a" "a \<le> 2 ^ 53" "t \<le> 2 ^ 53"
  shows "fdiv (fadd (fmul (ofNat a) (Fin 0)) (fmul (ofNat 0) (ofNat t)))
              (fsub (ofNat a) (ofNat 0)) = Fin 0"
proof -
  have a: "ofNat a = Fin (of_nat a)" using assms(2) by (rule ofNat_exact)
  have t: "ofNat t = Fin (of_nat t)" using assms(3) by (rule ofNat_exact)
  have z: "ofNat 0 = Fin 0" by (simp add: ofNat_def)
  have "rnd (of_nat a) = Fin (of_nat a)" using assms(2) by (rule rnd_of_nat_exact)
  then have s: "fsub (Fin (of_nat a)) (Fin 0) = Fin (of_nat a)" by (simp add: fsub_def)
  from assms(1) show ?thesis by (simp add: a t z s)
qed

section \<open>The rounds of some given dice\<close>

lemma createDie_0: "createDie 0 = []"
  by (simp add: createDie_def)

lemma createDie_1: "createDie 1 = [''1'']"
  by code_simp

lemma createDie_2: "createDie 2 = [''H'', ''T'']"
  by (simp add: createDie_def)

lemma createDie_6: "createDie 6 = [''1'', ''2'', ''3'', ''4'', ''5'', ''6'']"
  by code_simp

lemma part_2_6: "partitionTosses (generateTosses [''H'', ''T''] False 3) [''1'', ''2'', ''3'', ''4'', ''5'', ''6'']
  = [(\<lparr>faces = [[''H'', ''H'', ''H'']], ids = [0]\<rparr>, [''1'']),
  (\<lparr>faces = [[''H'', ''H'', ''T'']], ids = [1]\<rparr>, [''2'']),
  (\<lparr>faces = [[''H'', ''T'', ''H'']], ids = [2]\<rparr>, [''3'']),
  (\<lparr>faces = [[''H'', ''T'', ''T'']], ids = [3]\<rparr>, [''4'']),
  (\<lparr>faces = [[''T'', ''H'', ''H'']], ids = [4]\<rparr>, [''5'']),
  (\<lparr>faces = [[''T'', ''H'', ''T'']], ids = [5]\<rparr>, [''6'']),
  (\<lparr>faces = [[''T'', ''T'', ''H'']], ids = [6]\<rparr>, [''1'', ''2'', ''3'']),
  (\<lparr>faces = [[''T'', ''T'', ''T'']], ids = [7]\<rparr>, [''4'', ''5'', ''6''])]"
  by code_simp

lemma part_2_3a: "partitionTosses (generateTosses [''H'', ''T''] False 2) [''1'', ''2'', ''3'']
  = [(\<lparr>faces = [[''H'', ''H'']], ids = [0]\<rparr>, [''1'']),
     (\<lparr>faces = [[''H'', ''T'']], ids = [1]\<rparr>, [''2'']),
     (\<lparr>faces = [[''T'', ''H'']], ids = [2]\<rparr>, [''3'']),
     (\<lparr>faces = [[''T'', ''T'']], ids = [3]\<rparr>, [''1'', ''2'', ''3''])]"
  by code_simp

lemma part_2_3b: "partitionTosses (generateTosses [''H'', ''T''] False 2) [''4'', ''5'', ''6'']
  = [(\<lparr>faces = [[''H'', ''H'']], ids = [0]\<rparr>, [''4'']),
     (\<lparr>faces = [[''H'', ''T'']], ids = [1]\<rparr>, [''5'']),
     (\<lparr>faces = [[''T'', ''H'']], ids = [2]\<rparr>, [''6'']),
     (\<lparr>faces = [[''T'', ''T'']], ids = [3]\<rparr>, [''4'', ''5'', ''6''])]"
  by code_simp

lemma part_2_3a': "partitionTosses (generateTosses [''H'', ''T''] False (Suc (Suc 0))) [''1'', ''2'', ''3'']
  = [(\<lparr>faces = [[''H'', ''H'']], ids = [0]\<rparr>, [''1'']),
     (\<lparr>faces = [[''H'', ''T'']], ids = [1]\<rparr>, [''2'']),
     (\<lparr>faces = [[''T'', ''H'']], ids = [2]\<rparr>, [''3'']),
     (\<lparr>faces = [[''T'', ''T'']], ids = [3]\<rparr>, [''1'', ''2'', ''3''])]"
  using part_2_3a by (simp only: numeral_2_eq_2)

lemma part_2_3b': "partitionTosses (generateTosses [''H'', ''T''] False (Suc (Suc 0))) [''4'', ''5'', ''6'']
  = [(\<lparr>faces = [[''H'', ''H'']], ids = [0]\<rparr>, [''4'']),
     (\<lparr>faces = [[''H'', ''T'']], ids = [1]\<rparr>, [''5'']),
     (\<lparr>faces = [[''T'', ''H'']], ids = [2]\<rparr>, [''6'']),
     (\<lparr>faces = [[''T'', ''T'']], ids = [3]\<rparr>, [''4'', ''5'', ''6''])]"
  using part_2_3b by (simp only: numeral_2_eq_2)

lemma part_2_6': "partitionTosses (generateTosses [''H'', ''T''] False (Suc (Suc (Suc 0)))) [''1'', ''2'', ''3'', ''4'', ''5'', ''6'']
  = [(\<lparr>faces = [[''H'', ''H'', ''H'']], ids = [0]\<rparr>, [''1'']),
  (\<lparr>faces = [[''H'', ''H'', ''T'']], ids = [1]\<rparr>, [''2'']),
  (\<lparr>faces = [[''H'', ''T'', ''H'']], ids = [2]\<rparr>, [''3'']),
  (\<lparr>faces = [[''H'', ''T'', ''T'']], ids = [3]\<rparr>, [''4'']),
  (\<lparr>faces = [[''T'', ''H'', ''H'']], ids = [4]\<rparr>, [''5'']),
  (\<lparr>faces = [[''T'', ''H'', ''T'']], ids = [5]\<rparr>, [''6'']),
  (\<lparr>faces = [[''T'', ''T'', ''H'']], ids = [6]\<rparr>, [''1'', ''2'', ''3'']),
  (\<lparr>faces = [[''T'', ''T'', ''T'']], ids = [7]\<rparr>, [''4'', ''5'', ''6''])]"
  using part_2_6 by (simp only: numeral_3_eq_3)

lemma part_2_2: "partitionTosses (generateTosses [''H'', ''T''] True (Suc 0)) [''H'', ''T'']
  = [(\<lparr>faces = [[''H''], [''T'']], ids = [0, 1]\<rparr>, [''H'', ''T''])]"
  by code_simp

lemma part_2_1: "partitionTosses (generateTosses [''H'', ''T''] False (Suc 0)) [''1'']
  = [(\<lparr>faces = [[''H''], [''T'']], ids = [0, 1]\<rparr>, [''1''])]"
  by code_simp

lemma part_2_0: "partitionTosses (generateTosses [''H'', ''T''] False (Suc 0)) [] = []"
  by code_simp

lemma part_6_2: "partitionTosses (generateTosses [''1'', ''2'', ''3'', ''4'', ''5'', ''6''] False (Suc 0)) [''H'', ''T'']
  = [(\<lparr>faces = [[''1''], [''2''], [''3'']], ids = [0, 1, 2]\<rparr>, [''H'']),
     (\<lparr>faces = [[''4''], [''5''], [''6'']], ids = [3, 4, 5]\<rparr>, [''T''])]"
  by code_simp

lemma part_6_6: "partitionTosses (generateTosses [''1'', ''2'', ''3'', ''4'', ''5'', ''6''] False (Suc 0)) [''1'', ''2'', ''3'', ''4'', ''5'', ''6'']
  = [(\<lparr>faces = [[''1'']], ids = [0]\<rparr>, [''1'']),
     (\<lparr>faces = [[''2'']], ids = [1]\<rparr>, [''2'']),
     (\<lparr>faces = [[''3'']], ids = [2]\<rparr>, [''3'']),
     (\<lparr>faces = [[''4'']], ids = [3]\<rparr>, [''4'']),
     (\<lparr>faces = [[''5'']], ids = [4]\<rparr>, [''5'']),
     (\<lparr>faces = [[''6'']], ids = [5]\<rparr>, [''6''])]"
  by code_simp

lemmas conv_eval = getBestConversion_def getConversion_def getConversionWith_def conversionLoop_def
  better_def incThrows_def

lemma c1_eval: "conversionLoop best [''H'', ''T''] [''H'', ''T''] True (Suc 0)
    = Some (Fin 0, 2, [(\<lparr>faces = [[''H''], [''T'']], ids = [0, 1]\<rparr>, Self)])"
  by (simp add: conv_eval part_2_2 fl_eval)

lemma c6_eval: "getConversion fuel [''H'', ''T''] [''1''] False (Suc 0)
    = Some (Rule [''H'', ''T''] [''1''] False (Suc 0)
         [(\<lparr>faces = [[''H''], [''T'']], ids = [0, 1]\<rparr>, Self)] PInf)"
  by (simp add: conv_eval part_2_1 fl_eval)

lemma c5_eval: "getBestConversion (Suc 0) [''H'', ''T''] [] False
    = Some (Rule [''H'', ''T''] [] False (Suc 0) [] (Fin 0))"
  by (simp add: conv_eval part_2_0 fl_eval)

lemma c8a_eval: "getBestConversion (Suc 0) [''1'', ''2'', ''3'', ''4'', ''5'', ''6''] [''H'', ''T''] False
    = Some (Rule [''1'', ''2'', ''3'', ''4'', ''5'', ''6''] [''H'', ''T''] False (Suc 0)
    [(\<lparr>faces = [[''1''], [''2''], [''3'']], ids = [0, 1, 2]\<rparr>, Face ''H''),
     (\<lparr>faces = [[''4''], [''5''], [''6'']], ids = [3, 4, 5]\<rparr>, Face ''T'')]
    (Fin 1))"
  by (simp add: conv_eval part_6_2 fl_eval)

lemma c8b_eval: "getBestConversion (Suc 0) [''1'', ''2'', ''3'', ''4'', ''5'', ''6''] [''1'', ''2'', ''3'', ''4'', ''5'', ''6''] False
    = Some (Rule [''1'', ''2'', ''3'', ''4'', ''5'', ''6''] [''1'', ''2'', ''3'', ''4'', ''5'', ''6''] False (Suc 0)
     [(\<lparr>faces = [[''1'']], ids = [0]\<rparr>, Face ''1''),
     (\<lparr>faces = [[''2'']], ids = [1]\<rparr>, Face ''2''),
     (\<lparr>faces = [[''3'']], ids = [2]\<rparr>, Face ''3''),
     (\<lparr>faces = [[''4'']], ids = [3]\<rparr>, Face ''4''),
     (\<lparr>faces = [[''5'']], ids = [4]\<rparr>, Face ''5''),
     (\<lparr>faces = [[''6'']], ids = [5]\<rparr>, Face ''6'')]
     (Fin (9007199254740991 / 9007199254740992)))"
  by (simp add: conv_eval part_6_6 fl_eval)

lemma best_2_3a: "getBestConversion (Suc (Suc 0)) [''H'', ''T''] [''1'', ''2'', ''3''] False
  = Some (Rule [''H'', ''T''] [''1'', ''2'', ''3''] False 2
            [(\<lparr>faces = [[''H'', ''H'']], ids = [0]\<rparr>, Face ''1''),
             (\<lparr>faces = [[''H'', ''T'']], ids = [1]\<rparr>, Face ''2''),
             (\<lparr>faces = [[''T'', ''H'']], ids = [2]\<rparr>, Face ''3''),
             (\<lparr>faces = [[''T'', ''T'']], ids = [3]\<rparr>, Self)]
            (Fin (6004799503160661 / 2251799813685248)))"
  by (simp add: conv_eval part_2_3a' fl_eval)

lemma best_2_3b: "getBestConversion (Suc (Suc 0)) [''H'', ''T''] [''4'', ''5'', ''6''] False
  = Some (Rule [''H'', ''T''] [''4'', ''5'', ''6''] False 2
            [(\<lparr>faces = [[''H'', ''H'']], ids = [0]\<rparr>, Face ''4''),
             (\<lparr>faces = [[''H'', ''T'']], ids = [1]\<rparr>, Face ''5''),
             (\<lparr>faces = [[''T'', ''H'']], ids = [2]\<rparr>, Face ''6''),
             (\<lparr>faces = [[''T'', ''T'']], ids = [3]\<rparr>, Self)]
            (Fin (6004799503160661 / 2251799813685248)))"
  by (simp add: conv_eval part_2_3b' fl_eval)

lemma search_Suc:
  "search (Suc fuel) dA dB mf t best =
     (case getConversion fuel dA dB mf t of
        None \<Rightarrow> None
      | Some conversion \<Rightarrow>
          (let best' = better best conversion
           in if fge (fadd (ofNat t) (Fin 1)) (expectation best') then Some best'
              else search fuel dA dB mf (incThrows t) (Some best')))"
  by (simp add: getConversion_def getBestConversion_def)

lemma conv_2_6: "getConversion (Suc (Suc 0)) [''H'', ''T''] [''1'', ''2'', ''3'', ''4'', ''5'', ''6''] False (Suc (Suc (Suc 0)))
  = Some (Rule [''H'', ''T''] [''1'', ''2'', ''3'', ''4'', ''5'', ''6''] False 3
    [(\<lparr>faces = [[''H'', ''H'', ''H'']], ids = [0]\<rparr>, Face ''1''),
     (\<lparr>faces = [[''H'', ''H'', ''T'']], ids = [1]\<rparr>, Face ''2''),
     (\<lparr>faces = [[''H'', ''T'', ''H'']], ids = [2]\<rparr>, Face ''3''),
     (\<lparr>faces = [[''H'', ''T'', ''T'']], ids = [3]\<rparr>, Face ''4''),
     (\<lparr>faces = [[''T'', ''H'', ''H'']], ids = [4]\<rparr>, Face ''5''),
     (\<lparr>faces = [[''T'', ''H'', ''T'']], ids = [5]\<rparr>, Face ''6''),
     (\<lparr>faces = [[''T'', ''T'', ''H'']], ids = [6]\<rparr>,
      Sub (Rule [''H'', ''T''] [''1'', ''2'', ''3''] False 2
            [(\<lparr>faces = [[''H'', ''H'']], ids = [0]\<rparr>, Face ''1''),
             (\<lparr>faces = [[''H'', ''T'']], ids = [1]\<rparr>, Face ''2''),
             (\<lparr>faces = [[''T'', ''H'']], ids = [2]\<rparr>, Face ''3''),
             (\<lparr>faces = [[''T'', ''T'']], ids = [3]\<rparr>, Self)]
            (Fin (6004799503160661 / 2251799813685248)))),
     (\<lparr>faces = [[''T'', ''T'', ''T'']], ids = [7]\<rparr>,
      Sub (Rule [''H'', ''T''] [''4'', ''5'', ''6''] False 2
            [(\<lparr>faces = [[''H'', ''H'']], ids = [0]\<rparr>, Face ''4''),
             (\<lparr>faces = [[''H'', ''T'']], ids = [1]\<rparr>, Face ''5''),
             (\<lparr>faces = [[''T'', ''H'']], ids = [2]\<rparr>, Face ''6''),
             (\<lparr>faces = [[''T'', ''T'']], ids = [3]\<rparr>, Self)]
            (Fin (6004799503160661 / 2251799813685248))))]
    (Fin (2064149829211477 / 562949953421312)))"
  by (simp add: getConversion_def getConversionWith_def conversionLoop_def part_2_6' best_2_3a best_2_3b fl_eval)

lemma c7_eval: "getBestConversion (Suc (Suc (Suc 0))) [''H'', ''T''] [''1'', ''2'', ''3'', ''4'', ''5'', ''6''] False
  = getConversion (Suc (Suc 0)) [''H'', ''T''] [''1'', ''2'', ''3'', ''4'', ''5'', ''6''] False (Suc (Suc (Suc 0)))"
  unfolding getBestConversion_def
  by (simp add: search_Suc conv_2_6 better_def incThrows_def fl_eval del: search.simps)

section \<open>The search over the number of throws\<close>

subsection \<open>The minimum number of throws\<close>

lemma minThrows_diverge:
  assumes "tot * a = tot" "tot < b"
  shows "minThrows fuel a b tot t = None"
proof (induction fuel arbitrary: t)
  case 0
  show ?case by simp
next
  case (Suc fuel)
  have "minThrows (Suc fuel) a b tot t = minThrows fuel a b (tot * a) (incThrows t)"
    using assms(2) by simp
  also have "\<dots> = minThrows fuel a b tot (incThrows t)" by (simp only: assms(1))
  also have "\<dots> = None" by (rule Suc.IH)
  finally show ?case .
qed

lemma two_power_bound:
  assumes "2 \<le> (a::nat)" "a ^ t < b" "b < 2 ^ 32"
  shows "t < (32::nat)"
proof (rule ccontr)
  assume "\<not> t < 32"
  then have "(2::nat) ^ 32 \<le> 2 ^ t" by (intro power_increasing) simp_all
  also have "\<dots> \<le> a ^ t" using assms(1) by (intro power_mono) simp_all
  finally show False using assms(2,3) by simp
qed

lemma minThrows_result:
  assumes "minThrows fuel a b tot t = Some t'" "tot = a ^ t" "t < 2 ^ 53" "b < 2 ^ 32"
  shows "t \<le> t' \<and> b \<le> a ^ t' \<and> (\<forall>s. t \<le> s \<and> s < t' \<longrightarrow> a ^ s < b)"
  using assms
proof (induction fuel arbitrary: tot t)
  case 0
  then show ?case by simp
next
  case (Suc fuel)
  show ?case
  proof (cases "tot < b")
    case False
    with Suc.prems show ?thesis by simp
  next
    case True
    with Suc.prems have rec: "minThrows fuel a b (tot * a) (incThrows t) = Some t'" by simp
    have a2: "2 \<le> a"
    proof (rule ccontr)
      assume "\<not> 2 \<le> a"
      then have "a = 0 \<or> a = 1" by auto
      then have "tot * a * a = tot * a" "tot * a < b" using True by auto
      then have "minThrows fuel a b (tot * a) (incThrows t) = None" by (rule minThrows_diverge)
      with rec show False by simp
    qed
    from True Suc.prems have "a ^ t < b" by simp
    with a2 have t32: "t < 32" using Suc.prems(4) by (rule two_power_bound)
    then have inc: "incThrows t = t + 1" by (simp add: incThrows_def)
    have "t + 1 < (2::nat) ^ 53" using t32 by simp
    with rec inc Suc.prems have
      IH: "t + 1 \<le> t' \<and> b \<le> a ^ t' \<and> (\<forall>s. t + 1 \<le> s \<and> s < t' \<longrightarrow> a ^ s < b)"
      by (intro Suc.IH [of "tot * a" "t + 1"]) simp_all
    have "a ^ s < b" if "t \<le> s" "s < t'" for s
    proof (cases "s = t")
      case True
      with \<open>a ^ t < b\<close> show ?thesis by simp
    next
      case False
      with that IH show ?thesis by simp
    qed
    with IH show ?thesis by simp
  qed
qed

subsection \<open>The fields of a built rule\<close>

lemma getConversionWith_fields:
  "getConversionWith best dA dB mf t = Some r \<Longrightarrow>
   dieA r = dA \<and> dieB r = dB \<and> makeFair r = mf \<and> throws r = t"
  by (auto simp: getConversionWith_def Let_def split: option.splits prod.splits)

lemma better_cases: "better best c = c \<or> best = Some (better best c)"
  by (auto simp: better_def split: option.splits)

lemma search_throws:
  assumes "search fuel dA dB mf t best = Some r" "t0 \<le> t"
    "\<forall>b. best = Some b \<longrightarrow> t0 \<le> throws b"
  shows "t0 \<le> throws r"
  using assms
proof (induction fuel arbitrary: t best)
  case 0
  then show ?case by simp
next
  case (Suc fuel)
  let ?rec = "\<lambda>subDie. case minThrows fuel (length dA) (length subDie) (length dA) 1 of
                          None \<Rightarrow> None
                        | Some t0 \<Rightarrow> search fuel dA subDie mf t0 None"
  from Suc.prems(1) obtain c where c: "getConversionWith ?rec dA dB mf t = Some c"
    by (auto split: option.splits)
  then have tc: "throws c = t" by (simp add: getConversionWith_fields)
  define b' where "b' = better best c"
  have b': "t0 \<le> throws b'"
    using better_cases [of best c] tc Suc.prems(2,3) by (auto simp: b'_def)
  show ?case
  proof (cases "fge (fadd (ofNat t) (Fin 1)) (expectation b')")
    case True
    with Suc.prems(1) c have "r = b'" by (simp add: b'_def Let_def)
    with b' show ?thesis by simp
  next
    case False
    with Suc.prems(1) c have "search fuel dA dB mf (incThrows t) (Some b') = Some r"
      by (simp add: b'_def Let_def)
    moreover have "t0 \<le> incThrows t" using Suc.prems(2) by (simp add: incThrows_def)
    ultimately show ?thesis using b' by (intro Suc.IH [of "incThrows t" "Some b'"]) simp_all
  qed
qed

lemma getBestConversion_throws:
  assumes "getBestConversion fuel dA dB mf = Some r" "length dB < 2 ^ 32"
  shows "\<exists>t0. minThrows fuel (length dA) (length dB) (length dA) 1 = Some t0
      \<and> 1 \<le> t0 \<and> length dB \<le> length dA ^ t0
      \<and> (\<forall>s. 1 \<le> s \<and> s < t0 \<longrightarrow> length dA ^ s < length dB)
      \<and> t0 \<le> throws r"
proof -
  from assms(1) obtain t0
    where m: "minThrows fuel (length dA) (length dB) (length dA) 1 = Some t0"
      and s: "search fuel dA dB mf t0 None = Some r"
    by (auto simp: getBestConversion_def split: option.splits)
  from m have "1 \<le> t0 \<and> length dB \<le> length dA ^ t0
      \<and> (\<forall>s. 1 \<le> s \<and> s < t0 \<longrightarrow> length dA ^ s < length dB)"
    using assms(2) by (intro minThrows_result [of fuel _ _ "length dA"]) simp_all
  moreover from s have "t0 \<le> throws r" by (rule search_throws) simp_all
  ultimately show ?thesis using m by simp
qed

section \<open>The loop over the partition map\<close>

lemma partitionTosses_nil_die [simp]: "partitionTosses ts [] = []"
  by (simp add: partitionTosses_def getDivisors_def)

lemma fold_partitionStep_mem:
  assumes "e \<in> set (snd (fold (partitionStep d) ds st))"
  shows "e \<in> set (snd st) \<or> (\<exists>dv \<in> set ds. snd e \<in> set (subDice d dv))"
  using assms
proof (induction ds arbitrary: st)
  case Nil
  then show ?case by simp
next
  case (Cons dv ds)
  from Cons.IH [OF Cons.prems [simplified]]
  show ?case by (auto simp: partitionStep_snd dest: addToResult_snd)
qed

lemma partitionTosses_entry_length:
  assumes "e \<in> set (partitionTosses ts d)"
  shows "\<exists>dv. 1 \<le> dv \<and> dv dvd length d \<and> length (snd e) = length d div dv"
proof -
  from assms fold_partitionStep_mem [of e d "getDivisors (length d)" "(ts, [])"]
  obtain dv where dv: "dv \<in> set (getDivisors (length d))" and e: "snd e \<in> set (subDice d dv)"
    by (auto simp: partitionTosses_def)
  from dv have "1 \<le> dv" "dv dvd length d" by (simp_all add: getDivisors_set)
  with subDice_length [OF _ e] show ?thesis by blast
qed

lemma sortById_wf [simp]: "wfRange (sortById sr)"
  by (simp add: sortById_def wfRange_def Let_def)

lemma fold_partitionStep_wf:
  assumes "\<forall>e \<in> set (snd st). wfRange (fst e)"
  shows "\<forall>e \<in> set (snd (fold (partitionStep d) ds st)). wfRange (fst e)"
  using assms
proof (induction ds arbitrary: st)
  case Nil
  then show ?case by simp
next
  case (Cons dv ds)
  have "\<forall>e \<in> set (snd (partitionStep d dv st)). wfRange (fst e)"
    using Cons.prems by (auto simp: partitionStep_snd addToResult_def)
  from Cons.IH [OF this] show ?case by simp
qed

lemma partitionTosses_wf: "e \<in> set (partitionTosses ts d) \<Longrightarrow> wfRange (fst e)"
  using fold_partitionStep_wf [of "(ts, [])" d "getDivisors (length d)"]
  by (simp add: partitionTosses_def)

text \<open>The loop when every entry of the map leads back to the rule itself.\<close>

lemma convLoop_all_full:
  assumes "\<forall>e \<in> set es. fullSize dB e"
  shows "convLoop best dB t a es z sB =
     Some (z, (if es = [] then sB else length (faces (fst (last es)))),
           map (\<lambda>e. (fst e, Self)) es)"
  using assms
proof (induction es arbitrary: sB)
  case Nil
  then show ?case by simp
next
  case (Cons e es)
  obtain rng sd where e: "e = (rng, sd)" by (cases e)
  with Cons.prems have "length sd = length dB" by (simp add: fullSize_def)
  moreover have "convLoop best dB t a es z (length (faces rng)) =
     Some (z, (if es = [] then length (faces rng) else length (faces (fst (last es)))),
           map (\<lambda>e. (fst e, Self)) es)"
    using Cons.prems by (intro Cons.IH) simp
  ultimately show ?case by (simp add: e)
qed

lemma length_ids_le_idsOf: "r \<in> set rs \<Longrightarrow> length (ids r) \<le> size (idsOf rs)"
  by (induction rs) auto

text \<open>A target die with one face: the whole round is one repetition.\<close>

lemma partition_one_face:
  assumes "length dB = 1" "1 \<le> length dA"
  shows "\<exists>rng. partitionTosses (generateTosses dA mf t) dB = [(rng, dB)]
           \<and> length (faces rng) = length dA ^ t"
proof -
  let ?P = "partitionTosses (generateTosses dA mf t) dB"
  have full: "fullSize dB e" if "e \<in> set ?P" for e
    using partitionTosses_entry_length [OF that] assms(1) by (auto simp: fullSize_def)
  have one: "length (filter (fullSize dB) ?P) \<le> 1"
    using assms(1) by (intro partitionTosses_full_count) simp
  have "filter (fullSize dB) ?P = ?P" using full by (simp add: filter_id_conv)
  with one have len: "length ?P \<le> 1" by simp
  have ids: "idsOf (map fst ?P) = mset [0..<length dA ^ t]"
    using generateTosses_wf assms(1)
    by (subst partitionTosses_ids) (auto simp: generateTosses_ids)
  have "1 \<le> length dA ^ t" using assms(2) by (rule one_le_power)
  then have pos: "0 < length dA ^ t" by linarith
  show ?thesis
  proof (cases ?P)
    case Nil
    with ids have "mset [0..<length dA ^ t] = {#}" by simp
    then have "length dA ^ t = 0" by (simp only: mset_zero_iff upt_eq_Nil_conv) simp
    with pos show ?thesis by linarith
  next
    case (Cons e es)
    with len have P: "?P = [e]" by simp
    obtain rng sd where e: "e = (rng, sd)" by (cases e)
    have "e \<in> set ?P" by (simp add: P)
    then have "wfRange rng" "fullSize dB e"
      using partitionTosses_wf [of e] full by (simp_all add: e)
    moreover have "size (mset (ids rng)) = length dA ^ t"
      using ids by (simp add: P e)
    moreover have "sd = dB"
    proof -
      have "\<exists>dv \<in> set (getDivisors (length dB)). snd e \<in> set (subDice dB dv)"
        using fold_partitionStep_mem [of e dB "getDivisors (length dB)"
            "(generateTosses dA mf t, [])"] \<open>e \<in> set ?P\<close>
        by (simp add: partitionTosses_def)
      then show ?thesis
        using assms(1) by (cases dB) (auto simp: getDivisors_def subDice_def e)
    qed
    ultimately show ?thesis by (simp add: P e wfRange_def)
  qed
qed

lemma conversionLoop_one_face:
  assumes "length dB = 1" "1 \<le> length dA"
  shows "\<exists>rng. conversionLoop best dA dB mf t = Some (Fin 0, length dA ^ t, [(rng, Self)])"
proof -
  from partition_one_face [OF assms] obtain rng
    where P: "partitionTosses (generateTosses dA mf t) dB = [(rng, dB)]"
      and n: "length (faces rng) = length dA ^ t" by blast
  show ?thesis by (simp add: conversionLoop_def P n)
qed

lemma getConversionWith_one_face:
  assumes "length dB = 1" "1 \<le> length dA" "1 \<le> t"
  shows "\<exists>r. getConversionWith best dA dB mf t = Some r \<and> expectation r \<in> {PInf, NaN}"
proof -
  from conversionLoop_one_face [OF assms(1,2)] obtain rng
    where "conversionLoop best dA dB mf t = Some (Fin 0, length dA ^ t, [(rng, Self)])"
    by blast
  moreover have "1 \<le> length dA ^ t" using assms(2) by (rule one_le_power)
  ultimately show ?thesis
    using expectation_all_repeat [OF _ assms(3), of "length dA ^ t"]
    by (simp add: getConversionWith_def Let_def)
qed

lemma not_fge_stuck:
  assumes "t \<le> 2 ^ 53" "e \<in> {PInf, NaN}"
  shows "\<not> fge (fadd (ofNat t) (Fin 1)) e"
  using assms fadd_ofNat_one [OF assms(1)] by auto

lemma better_stuck:
  assumes "expectation c \<in> {PInf, NaN}" "\<forall>b. best = Some b \<longrightarrow> expectation b \<in> {PInf, NaN}"
  shows "expectation (better best c) \<in> {PInf, NaN}"
  using assms better_cases [of best c] by auto

lemma incThrows_bounds: "1 \<le> t \<Longrightarrow> t \<le> 2 ^ 53 \<Longrightarrow> 1 \<le> incThrows t \<and> incThrows t \<le> 2 ^ 53"
  by (simp add: incThrows_def)

lemma search_one_face:
  assumes "length dB = 1" "1 \<le> length dA" "1 \<le> t" "t \<le> 2 ^ 53"
    "\<forall>b. best = Some b \<longrightarrow> expectation b \<in> {PInf, NaN}"
  shows "search fuel dA dB mf t best = None"
  using assms(3-)
proof (induction fuel arbitrary: t best)
  case 0
  show ?case by simp
next
  case (Suc fuel)
  let ?rec = "\<lambda>subDie. case minThrows fuel (length dA) (length subDie) (length dA) 1 of
                          None \<Rightarrow> None
                        | Some t0 \<Rightarrow> search fuel dA subDie mf t0 None"
  from getConversionWith_one_face [OF assms(1,2) Suc.prems(1)] obtain c
    where c: "getConversionWith ?rec dA dB mf t = Some c" and e: "expectation c \<in> {PInf, NaN}"
    by blast
  define b' where "b' = better best c"
  have b': "expectation b' \<in> {PInf, NaN}"
    unfolding b'_def using e Suc.prems(3) by (rule better_stuck)
  have stop: "\<not> fge (fadd (ofNat t) (Fin 1)) (expectation b')"
    using Suc.prems(2) b' by (rule not_fge_stuck)
  have "search fuel dA dB mf (incThrows t) (Some b') = None"
    using incThrows_bounds [OF Suc.prems(1,2)] b' by (intro Suc.IH) simp_all
  with c stop show ?case by (simp add: b'_def [symmetric] Let_def)
qed

lemma getBestConversion_one_face:
  assumes "length dB = 1" "1 \<le> length dA"
  shows "getBestConversion fuel dA dB mf = None"
proof (cases "minThrows fuel (length dA) (length dB) (length dA) 1")
  case None
  then show ?thesis by (simp add: getBestConversion_def)
next
  case (Some t0)
  have "t0 = 1" using Some assms by (cases fuel) (auto split: if_splits)
  moreover have "search fuel dA dB mf 1 None = None"
    using assms by (intro search_one_face) simp_all
  ultimately show ?thesis using Some by (simp add: getBestConversion_def)
qed

text \<open>A source die with fewer than two faces and a larger target die.\<close>

lemma getBestConversion_small_source:
  assumes "length dA < 2" "length dA < length dB"
  shows "getBestConversion fuel dA dB mf = None"
proof -
  have "length dA * length dA = length dA" using assms(1) by (cases "length dA") auto
  then have "minThrows fuel (length dA) (length dB) (length dA) 1 = None"
    using assms(2) by (rule minThrows_diverge)
  then show ?thesis by (simp add: getBestConversion_def)
qed

text \<open>An empty target die.\<close>

lemma getBestConversion_empty_target:
  assumes "1 \<le> length dA" "length dA \<le> 2 ^ 53"
  shows "getBestConversion (Suc fuel) dA [] mf = Some (Rule dA [] mf 1 [] (Fin 0))"
proof -
  have e: "fdiv (fadd (fmul (ofNat (length dA)) (Fin 0)) (fmul (ofNat 0) (ofNat 1)))
              (fsub (ofNat (length dA)) (ofNat 0)) = Fin 0"
    using assms by (intro expectation_empty_map) simp_all
  have "fadd (ofNat 1) (Fin 1) = Fin 2" using fadd_ofNat_one [of 1] by simp
  then show ?thesis
    using e by (simp add: getBestConversion_def getConversionWith_def conversionLoop_def better_def)
qed

section \<open>The claims about the search\<close>

lemma createDie_Suc_0: "createDie (Suc 0) = [''1'']"
  using createDie_1 by simp

text \<open>
  Claim C4. The claim says that \<^verbatim>\<open>getBestConversion\<close> terminates for every source die
  with at least two faces and every target die with at least one face. For the target die
  \<^verbatim>\<open>createDie(1)\<close> the code does not: every round has the whole target die as its only
  sub-die, so all tosses repeat, the expectation is \<^verbatim>\<open>Infinity\<close> (or \<^verbatim>\<open>NaN\<close>) and the test
  \<^verbatim>\<open>throws + 1 >= best.expectation\<close> never holds. Whatever the fuel, the model does not
  return.
\<close>

theorem getBestConversion_one_face_target_loops:
  "getBestConversion fuel (createDie 2) (createDie 1) mf = None"
  by (rule getBestConversion_one_face) (simp_all add: createDie_Suc_0 createDie_2)

text \<open>
  Claim C6. The claim says that the expectation of a rule is \<open>0\<close> exactly when the target
  die has one face, and that no round is built then. The round that \<^verbatim>\<open>getConversion\<close>
  builds for the dice \<^verbatim>\<open>createDie(2)\<close> and \<^verbatim>\<open>createDie(1)\<close> with one throw has a single
  entry, which repeats the rule, and its expectation is \<^verbatim>\<open>2 / 0 = Infinity\<close>.
\<close>

theorem getConversion_one_face_target_infinite:
  "getConversion fuel (createDie 2) (createDie 1) False 1 =
     Some (Rule (createDie 2) (createDie 1) False 1
       [(\<lparr>faces = [[''H''], [''T'']], ids = [0, 1]\<rparr>, Self)] PInf)"
  using c6_eval [of fuel] by (simp add: createDie_Suc_0 createDie_2)

text \<open>
  Claim C5, as stated, fails: for the target die \<^verbatim>\<open>createDie(0)\<close>, whose face count is
  below \<open>1\<close>, \<^verbatim>\<open>getBestConversion\<close> raises nothing; it enumerates the two tosses of one
  throw and returns a rule.
\<close>

theorem getBestConversion_no_validation_counterexample:
  "getBestConversion 1 (createDie 2) (createDie 0) False =
     Some (Rule (createDie 2) (createDie 0) False 1 [] (Fin 0))"
  using c5_eval by (simp add: createDie_0 createDie_2)

text \<open>
  Claim C5, amended. \<^verbatim>\<open>getBestConversion\<close> does not validate the dice and raises no
  error. For a source die with fewer than two faces and a target die with more faces than
  the source die it never returns: the loop for the minimum number of throws does not end,
  and no toss is enumerated. For an empty target die and a source die with at least one
  face (and at most \<open>2 ^ 53\<close>, as every array has) it builds one round and returns the
  rule with one throw, no conversion and expectation \<open>0\<close>.
\<close>

theorem getBestConversion_invalid_dice:
  "(length dA < 2 \<and> length dA < length dB \<longrightarrow> getBestConversion fuel dA dB mf = None) \<and>
   (1 \<le> length dA \<and> length dA \<le> 2 ^ 53 \<longrightarrow>
      getBestConversion (Suc fuel) dA [] mf = Some (Rule dA [] mf 1 [] (Fin 0)))"
  using getBestConversion_small_source [of dA dB fuel mf]
    getBestConversion_empty_target [of dA fuel mf]
  by blast

theorem getBestConversion_invalid_dice_witness:
  "(length (createDie 1) < 2 \<and> length (createDie 1) < length (createDie 2)) \<and>
   getBestConversion 7 (createDie 1) (createDie 2) True = None \<and>
   (1 \<le> length (createDie 1) \<and> length (createDie 1) \<le> 2 ^ 53) \<and>
   getBestConversion (Suc 7) (createDie 1) [] True = Some (Rule (createDie 1) [] True 1 [] (Fin 0))"
  using getBestConversion_invalid_dice [of "createDie 1" "createDie 2" 7 True]
  by (simp add: createDie_Suc_0 createDie_2)

text \<open>
  Claim C7. \<^verbatim>\<open>getBestConversion(createDie(2), createDie(6), false)\<close> returns a rule with
  at least \<open>3\<close> throws whose expectation lies strictly between \<open>3\<close> and \<open>4\<close>. In general
  the search starts at the least \<open>t0 \<ge> 1\<close> with \<open>length dA ^ t0 \<ge> length dB\<close>, and the
  rule that is returned has at least \<open>t0\<close> throws (the target die is an array, so it has
  fewer than \<open>2 ^ 32\<close> faces).
\<close>

theorem getBestConversion_min_throws:
  "(\<exists>r. getBestConversion 3 (createDie 2) (createDie 6) False = Some r
        \<and> 3 \<le> throws r \<and> flt (Fin 3) (expectation r) \<and> flt (expectation r) (Fin 4)) \<and>
   (getBestConversion fuel dA dB mf = Some r' \<and> length dB < 2 ^ 32 \<longrightarrow>
      (\<exists>t0. 1 \<le> t0 \<and> length dB \<le> length dA ^ t0
         \<and> (\<forall>s. 1 \<le> s \<and> s < t0 \<longrightarrow> length dA ^ s < length dB)
         \<and> t0 \<le> throws r'))"
proof
  have "getBestConversion 3 (createDie 2) (createDie 6) False =
    getConversion (Suc (Suc 0)) [''H'', ''T''] [''1'', ''2'', ''3'', ''4'', ''5'', ''6''] False
      (Suc (Suc (Suc 0)))"
    using c7_eval by (simp add: createDie_2 createDie_6 numeral_3_eq_3)
  then show "\<exists>r. getBestConversion 3 (createDie 2) (createDie 6) False = Some r
        \<and> 3 \<le> throws r \<and> flt (Fin 3) (expectation r) \<and> flt (expectation r) (Fin 4)"
    by (simp add: conv_2_6)
  show "getBestConversion fuel dA dB mf = Some r' \<and> length dB < 2 ^ 32 \<longrightarrow>
      (\<exists>t0. 1 \<le> t0 \<and> length dB \<le> length dA ^ t0
         \<and> (\<forall>s. 1 \<le> s \<and> s < t0 \<longrightarrow> length dA ^ s < length dB)
         \<and> t0 \<le> throws r')"
    using getBestConversion_throws [of fuel dA dB mf r'] by blast
qed

theorem getBestConversion_min_throws_witness:
  "\<exists>r'. getBestConversion 3 (createDie 2) (createDie 6) False = Some r'
     \<and> length (createDie 6) < 2 ^ 32
     \<and> (\<exists>t0. 1 \<le> t0 \<and> length (createDie 6) \<le> length (createDie 2) ^ t0
         \<and> (\<forall>s. 1 \<le> s \<and> s < t0 \<longrightarrow> length (createDie 2) ^ s < length (createDie 6))
         \<and> t0 \<le> throws r')"
proof -
  from getBestConversion_min_throws [of 3 "createDie 2" "createDie 6" False]
  obtain r where r: "getBestConversion 3 (createDie 2) (createDie 6) False = Some r" by blast
  have "length (createDie 6) < 2 ^ 32" by (simp add: createDie_6)
  with r getBestConversion_min_throws [of 3 "createDie 2" "createDie 6" False r]
  show ?thesis by blast
qed

section \<open>The state of the loop over the partition map\<close>

lemma convLoop_spec:
  assumes "convLoop best dB t a es z sB = Some (z', sB', cs)"
  shows "z' = fold (\<lambda>c z. fadd z (specTerm a t c)) (filter (\<lambda>c. \<not> isRepeat c) cs) z
    \<and> sB' = (if filter isRepeat cs = [] then sB else branchSize (last (filter isRepeat cs)))
    \<and> length (filter isRepeat cs) = length (filter (fullSize dB) es)"
  using assms
proof (induction es arbitrary: z sB z' sB' cs)
  case Nil
  then show ?case by simp
next
  case (Cons e es)
  obtain rng sd where e: "e = (rng, sd)" by (cases e)
  consider (full) "length sd = length dB"
    | (face) "length sd \<noteq> length dB" "length sd = 1"
    | (sub) "length sd \<noteq> length dB" "length sd \<noteq> 1" by blast
  then show ?case
  proof cases
    case full
    with Cons.prems obtain cs0
      where rec: "convLoop best dB t a es z (length (faces rng)) = Some (z', sB', cs0)"
        and cs: "cs = (rng, Self) # cs0"
      by (auto simp: e split: option.splits)
    from Cons.IH [OF rec] full show ?thesis by (simp add: cs e fullSize_def)
  next
    case face
    let ?z = "fadd z (fmul (fdiv (ofNat (length (faces rng))) a) (ofNat t))"
    from face Cons.prems obtain cs0
      where rec: "convLoop best dB t a es ?z sB = Some (z', sB', cs0)"
        and cs: "cs = (rng, Face (sd ! 0)) # cs0"
      by (auto simp: e split: option.splits)
    have "specTerm a t (rng, Face (sd ! 0)) = fmul (fdiv (ofNat (length (faces rng))) a) (ofNat t)"
      by (simp add: specTerm_def fadd_ofNat_zero)
    with Cons.IH [OF rec] face show ?thesis by (simp add: cs e fullSize_def)
  next
    case sub
    with Cons.prems obtain r cs0
      where r: "best sd = Some r"
        and rec: "convLoop best dB t a es
            (fadd z (fmul (fdiv (ofNat (length (faces rng))) a) (fadd (ofNat t) (expectation r))))
            sB = Some (z', sB', cs0)"
        and cs: "cs = (rng, Sub r) # cs0"
      by (auto simp: e split: option.splits)
    from Cons.IH [OF rec] sub show ?thesis by (simp add: cs e fullSize_def specTerm_def)
  qed
qed

lemma convLoop_sizeB:
  assumes "convLoop best dB t a es z sB = Some (z', sB', cs)"
  shows "sB' = sB \<or> (\<exists>e \<in> set es. fullSize dB e \<and> sB' = length (faces (fst e)))"
  using assms
proof (induction es arbitrary: z sB z' sB' cs)
  case Nil
  then show ?case by simp
next
  case (Cons e es)
  obtain rng sd where e: "e = (rng, sd)" by (cases e)
  show ?case
  proof (cases "length sd = length dB")
    case True
    with Cons.prems obtain cs0
      where rec: "convLoop best dB t a es z (length (faces rng)) = Some (z', sB', cs0)"
      by (auto simp: e split: option.splits)
    from Cons.IH [OF rec] True show ?thesis by (auto simp: e fullSize_def)
  next
    case False
    with Cons.prems obtain z0 cs0
      where rec: "convLoop best dB t a es z0 sB = Some (z', sB', cs0)"
      by (auto simp: e split: option.splits if_splits)
    from Cons.IH [OF rec] show ?thesis by auto
  qed
qed

lemma getConversionWith_spec:
  assumes "getConversionWith best dA dB mf t = Some r"
  shows "expectation r = specExpectation dA t (conversions r)"
proof -
  let ?a = "ofNat (length dA ^ t)"
  let ?P = "partitionTosses (generateTosses dA mf t) dB"
  from assms obtain z sB cs
    where loop: "convLoop best dB t ?a ?P (Fin 0) 0 = Some (z, sB, cs)"
      and r: "r = Rule dA dB mf t cs
          (fdiv (fadd (fmul ?a z) (fmul (ofNat sB) (ofNat t))) (fsub ?a (ofNat sB)))"
    by (auto simp: getConversionWith_def conversionLoop_def Let_def split: option.splits)
  note s = convLoop_spec [OF loop]
  have "length (filter (fullSize dB) ?P) \<le> 1"
  proof (cases "length dB = 0")
    case True
    then show ?thesis by simp
  next
    case False
    then have "1 \<le> length dB" by (cases dB) simp_all
    then show ?thesis by (rule partitionTosses_full_count)
  qed
  with s have "length (filter isRepeat cs) \<le> 1" by simp
  then have "filter isRepeat cs = [] \<or> (\<exists>c. filter isRepeat cs = [c])"
    by (cases "filter isRepeat cs") (auto simp: length_Suc_conv)
  with s have sB: "sB = specSizeB cs" by (auto simp: specSizeB_def)
  from s have z: "z = specZ ?a t cs" by (simp add: specZ_def)
  show ?thesis by (simp add: r specExpectation_def Let_def sB [symmetric] z [symmetric])
qed

section \<open>The size of the repeat branch\<close>

lemma size_idsOf: "size (idsOf rs) = sum_list (map (\<lambda>r. length (ids r)) rs)"
  by (induction rs) simp_all

lemma sum_list_two_members:
  fixes f :: "'a \<Rightarrow> nat"
  assumes "x \<in> set xs" "y \<in> set xs" "x \<noteq> y"
  shows "f x + f y \<le> sum_list (map f xs)"
  using assms
proof (induction xs)
  case Nil
  then show ?case by simp
next
  case (Cons u xs)
  have m: "v \<in> set xs \<Longrightarrow> f v \<le> sum_list (map f xs)" for v
    by (simp add: member_le_sum_list)
  from Cons show ?case using m [of x] m [of y] by auto
qed

lemma partitionTosses_size_le:
  assumes "\<forall>u \<in> set ts. wfRange u"
  shows "size (idsOf (map fst (partitionTosses ts d))) \<le> size (idsOf ts)"
proof -
  from fold_partitionStep_ids [of "(ts, [])" d "getDivisors (length d)"] assms
  have "idsOf (fst (fold (partitionStep d) (getDivisors (length d)) (ts, [])))
      + idsOf (map fst (partitionTosses ts d)) = idsOf ts"
    by (simp add: partitionTosses_def)
  then have "size (idsOf ts) = size (idsOf (fst (fold (partitionStep d) (getDivisors (length d)) (ts, []))))
      + size (idsOf (map fst (partitionTosses ts d)))"
    by (metis size_union)
  then show ?thesis by simp
qed

lemma partition_entry_size:
  assumes "e \<in> set (partitionTosses (generateTosses dA mf t) dB)"
  shows "length (faces (fst e)) \<le> length dA ^ t"
proof -
  let ?P = "partitionTosses (generateTosses dA mf t) dB"
  have "length (faces (fst e)) = length (ids (fst e))"
    using partitionTosses_wf [OF assms] by (simp add: wfRange_def)
  also have "\<dots> \<le> size (idsOf (map fst ?P))"
    using assms by (intro length_ids_le_idsOf) simp
  also have "\<dots> \<le> size (idsOf (generateTosses dA mf t))"
    using generateTosses_wf by (intro partitionTosses_size_le) blast
  finally show ?thesis by (simp add: generateTosses_ids)
qed

lemma conversionLoop_sizeB_le:
  assumes "conversionLoop best dA dB mf t = Some (z, sizeB, cs)"
  shows "sizeB \<le> length dA ^ t"
proof -
  from convLoop_sizeB [OF assms [unfolded conversionLoop_def]]
  show ?thesis using partition_entry_size by auto
qed

section \<open>A round for a fair source die\<close>

lemma addToss_same_key:
  assumes "\<forall>p \<in> set bc. fst p = k" "length bc \<le> 1"
  shows "length (addToss bc k f i) = 1 \<and> (\<forall>p \<in> set (addToss bc k f i). fst p = k)"
proof (cases bc)
  case Nil
  then show ?thesis by simp
next
  case (Cons p ps)
  with assms have "ps = []" "fst p = k" by simp_all
  with Cons show ?thesis by (cases p) simp
qed

lemma fold_genStep_fair:
  assumes "\<forall>p \<in> set (fst st). fst p = []" "length (fst st) \<le> 1"
  shows "length (fst (fold (genStep fs False t) is st)) \<le> 1"
  using assms
proof (induction "is" arbitrary: st)
  case Nil
  then show ?case by simp
next
  case (Cons i "is")
  let ?st = "genStep fs False t i st"
  have "length (fst ?st) = 1 \<and> (\<forall>p \<in> set (fst ?st). fst p = [])"
    using addToss_same_key [OF Cons.prems] by (simp add: genStep_def Let_def chanceKey_def)
  then have "length (fst (fold (genStep fs False t) is ?st)) \<le> 1"
    by (intro Cons.IH) simp_all
  then show ?case by simp
qed

lemma generateTosses_fair:
  assumes "1 \<le> length fs"
  shows "\<exists>c. generateTosses fs False t = [c] \<and> wfRange c \<and> length (faces c) = length fs ^ t"
proof -
  let ?cs = "generateTosses fs False t"
  have len: "length ?cs \<le> 1"
    using fold_genStep_fair [of "([], replicate t 0)" fs t "[0..<length fs ^ t]"]
    by (simp add: generateTosses_def Let_def)
  have ids: "idsOf ?cs = mset [0..<length fs ^ t]" by (rule generateTosses_ids)
  have "1 \<le> length fs ^ t" using assms by (rule one_le_power)
  then have pos: "0 < length fs ^ t" by linarith
  show ?thesis
  proof (cases ?cs)
    case Nil
    with ids have "mset [0..<length fs ^ t] = {#}" by simp
    then have "length fs ^ t = 0" by (simp only: mset_zero_iff upt_eq_Nil_conv) simp
    with pos show ?thesis by linarith
  next
    case (Cons c cs)
    with len have c: "?cs = [c]" by simp
    then have wf: "wfRange c" using generateTosses_wf [of c fs False t] by simp
    from ids have "size (mset (ids c)) = length fs ^ t" by (simp add: c)
    with wf c show ?thesis by (simp add: wfRange_def)
  qed
qed

section \<open>The first pass of the partition\<close>

lemma getDivisors_hd: "1 \<le> n \<Longrightarrow> \<exists>ds. getDivisors n = n # ds"
  by (simp add: getDivisors_def)

lemma fold_partitionStep_prefix:
  "set (snd st) \<subseteq> set (snd (fold (partitionStep d) ds st))"
proof (induction ds arbitrary: st)
  case Nil
  show ?case by simp
next
  case (Cons dv ds)
  have "set (snd st) \<subseteq> set (snd (partitionStep d dv st))" by (simp add: partitionStep_snd)
  with Cons [of "partitionStep d dv st"] show ?case by auto
qed

lemma allocate_hd:
  "\<exists>rest. allocate k u (s # srs) =
     \<lparr>faces = faces s @ take k (faces u), ids = ids s @ take k (ids u)\<rparr> # rest"
proof -
  have "[0..<length (s # srs)] = 0 # [Suc 0..<Suc (length srs)]"
    by (simp add: upt_conv_Cons del: upt_Suc)
  then show ?thesis by (simp add: allocate_def del: upt_Suc)
qed

lemma subDice_hd: "1 \<le> dv \<Longrightarrow> \<exists>rest. subDice d dv = take (length d div dv) d # rest"
  by (simp add: subDice_def Let_def upt_conv_Cons)

lemma allocClasses_single:
  assumes "length (faces c) div dv \<noteq> 0"
  shows "snd (allocClasses dv [c] srs) = allocate (length (faces c) div dv) c srs"
  using assms by (simp add: Let_def)

lemma first_pass_entry:
  assumes m: "2 \<le> length dB" and le: "length dB \<le> length (faces c)" and wf: "wfRange c"
  shows "\<exists>e \<in> set (partitionTosses [c] dB). \<not> fullSize dB e \<and> 1 \<le> length (ids (fst e))"
proof -
  let ?m = "length dB"
  define k where "k = length (faces c) div ?m"
  have k: "1 \<le> k" using m le by (auto simp: k_def Suc_le_eq div_greater_zero_iff)
  from m obtain ds where ds: "getDivisors ?m = ?m # ds" using getDivisors_hd [of ?m] by auto
  from m obtain R where R: "replicate ?m emptyRange = emptyRange # R"
    by (cases ?m) auto
  obtain rest where al: "allocate k c (emptyRange # R) =
      \<lparr>faces = faces emptyRange @ take k (faces c), ids = ids emptyRange @ take k (ids c)\<rparr> # rest"
    using allocate_hd by blast
  define s0 where "s0 = \<lparr>faces = take k (faces c), ids = take k (ids c)\<rparr>"
  have kne: "length (faces c) div ?m \<noteq> 0" using k by (simp add: k_def)
  have "snd (allocClasses ?m [c] (replicate ?m emptyRange))
      = allocate k c (replicate ?m emptyRange)"
    unfolding k_def using kne by (rule allocClasses_single)
  also have "\<dots> = allocate k c (emptyRange # R)" by (simp only: R)
  also have "\<dots> = s0 # rest" unfolding al by (simp add: s0_def emptyRange_def)
  finally have srs: "snd (allocClasses ?m [c] (replicate ?m emptyRange)) = s0 # rest" .
  from m obtain sds where sd: "subDice dB ?m = take (?m div ?m) dB # sds"
    using subDice_hd [of ?m dB] by auto
  have kle: "k \<le> length (faces c)" by (simp add: k_def)
  then have s0f: "length (faces s0) = k" and s0i: "length (ids s0) = k"
    using wf by (simp_all add: s0_def wfRange_def)
  define e where "e = (sortById s0, take (?m div ?m) dB)"
  have ne: "faces s0 \<noteq> []" using k s0f by auto
  have "e \<in> set (addToResult (s0 # rest) (take (?m div ?m) dB # sds))"
    using ne by (simp add: addToResult_def e_def)
  then have "e \<in> set (snd (partitionStep dB ?m ([c], [])))"
    by (simp only: partitionStep_snd fst_conv snd_conv srs sd append_Nil)
  with fold_partitionStep_prefix [of "partitionStep dB ?m ([c], [])" dB ds]
  have mem: "e \<in> set (partitionTosses [c] dB)" by (auto simp: partitionTosses_def ds)
  have "wfRange s0" using s0f s0i by (simp add: wfRange_def)
  then have "size (mset (ids (sortById s0))) = size (mset (ids s0))"
    by (simp only: sortById_ids)
  then have "length (ids (fst e)) = k" by (simp add: e_def s0i)
  moreover have "\<not> fullSize dB e"
  proof -
    have "?m \<noteq> 0" using m by linarith
    then have "?m div ?m = 1" by (rule div_self)
    moreover have "dB \<noteq> []" using m by auto
    moreover have "?m \<noteq> 1" using m by linarith
    ultimately show ?thesis
      by (cases dB) (simp_all add: e_def fullSize_def)
  qed
  ultimately show ?thesis using mem k by auto
qed

lemma conversionLoop_sizeB_less:
  assumes loop: "conversionLoop best dA dB False t = Some (z, sizeB, cs)"
    and m: "2 \<le> length dB" and le: "length dB \<le> length dA ^ t"
  shows "sizeB < length dA ^ t"
proof -
  let ?a = "length dA ^ t"
  have "length dA \<noteq> 0"
  proof
    assume "length dA = 0"
    then have "?a \<le> 1" by (cases t) simp_all
    with m le show False by simp
  qed
  then have "1 \<le> length dA" by (simp add: Suc_le_eq)
  from generateTosses_fair [OF this] obtain c
    where c: "generateTosses dA False t = [c]" and wf: "wfRange c"
      and n: "length (faces c) = ?a" by blast
  let ?P = "partitionTosses [c] dB"
  from first_pass_entry [OF m _ wf] le n obtain e'
    where e': "e' \<in> set ?P" "\<not> fullSize dB e'" "1 \<le> length (ids (fst e'))" by auto
  have tot: "sum_list (map (\<lambda>e. length (ids (fst e))) ?P) \<le> ?a"
  proof -
    have "size (idsOf (map fst ?P)) \<le> size (idsOf [c])"
      using wf by (intro partitionTosses_size_le) simp
    moreover have "size (idsOf [c]) = ?a" using wf n by (simp add: wfRange_def)
    ultimately show ?thesis by (simp add: size_idsOf comp_def)
  qed
  from convLoop_sizeB [OF loop [unfolded conversionLoop_def c]]
  consider "sizeB = 0" | e where "e \<in> set ?P" "fullSize dB e" "sizeB = length (faces (fst e))"
    by blast
  then show ?thesis
  proof cases
    case 1
    with m le show ?thesis by linarith
  next
    case (2 e)
    then have "e \<noteq> e'" using e'(2) by auto
    with 2(1) e'(1)
    have "length (ids (fst e)) + length (ids (fst e')) \<le> sum_list (map (\<lambda>e. length (ids (fst e))) ?P)"
      by (intro sum_list_two_members)
    with tot e'(3) have "length (ids (fst e)) < ?a" by linarith
    moreover have "length (faces (fst e)) = length (ids (fst e))"
      using partitionTosses_wf [OF 2(1)] by (simp add: wfRange_def)
    ultimately show ?thesis by (simp add: 2(3))
  qed
qed

lemma loop_6_2: "conversionLoop best [''1'', ''2'', ''3'', ''4'', ''5'', ''6''] [''H'', ''T''] False (Suc 0)
    = Some (Fin 1, 0,
    [(\<lparr>faces = [[''1''], [''2''], [''3'']], ids = [0, 1, 2]\<rparr>, Face ''H''),
     (\<lparr>faces = [[''4''], [''5''], [''6'']], ids = [3, 4, 5]\<rparr>, Face ''T'')])"
  by (simp add: conv_eval part_6_2 fl_eval)

lemma conv_2_2_unfair: "getConversion fuel [''H'', ''T''] [''H'', ''T''] True (Suc 0)
    = Some (Rule [''H'', ''T''] [''H'', ''T''] True (Suc 0)
         [(\<lparr>faces = [[''H''], [''T'']], ids = [0, 1]\<rparr>, Self)] PInf)"
  by (simp add: conv_eval part_2_2 fl_eval)

text \<open>
  Claim C1, as stated, fails. In \<^verbatim>\<open>getConversion(createDie(2), createDie(2), true, 1)\<close>,
  the first round that \<^verbatim>\<open>getBestConversion(createDie(2), createDie(2), true)\<close> builds,
  the classes of the two tosses have one member each, nothing is allocated for the divisor
  \<open>2\<close>, both tosses go to the repeat branch and \<open>sizeB = 2 = 2 ^ 1\<close>: the expectation is
  \<open>2 / 0\<close>, which is \<^verbatim>\<open>Infinity\<close>.
\<close>

theorem sizeB_less_counterexample:
  "conversionLoop (\<lambda>d. None) (createDie 2) (createDie 2) True 1
     = Some (Fin 0, 2, [(\<lparr>faces = [[''H''], [''T'']], ids = [0, 1]\<rparr>, Self)])
   \<and> \<not> 2 < length (createDie 2) ^ 1
   \<and> getConversion 0 (createDie 2) (createDie 2) True 1
     = Some (Rule (createDie 2) (createDie 2) True 1
         [(\<lparr>faces = [[''H''], [''T'']], ids = [0, 1]\<rparr>, Self)] PInf)"
  using c1_eval [of "\<lambda>d. None"] conv_2_2_unfair [of 0] by (simp add: createDie_2)

section \<open>The branches of a round\<close>

lemma convLoop_branches:
  "map_option (\<lambda>s. snd (snd s))
     (convLoop (\<lambda>subDie. getBestConversion fuel dA subDie mf) dB t a es z sB)
   = those (map (specBranch fuel dA dB mf) es)"
proof (induction es arbitrary: z sB)
  case Nil
  then show ?case by simp
next
  case (Cons e es)
  obtain rng sd where e: "e = (rng, sd)" by (cases e)
  consider (full) "length sd = length dB"
    | (face) "length sd \<noteq> length dB" "length sd = 1"
    | (sub) "length sd \<noteq> length dB" "length sd \<noteq> 1" by blast
  then show ?case
  proof cases
    case full
    from full show ?thesis
      by (auto simp: e Cons.IH [of z "length (faces rng)", symmetric] split: option.splits)
  next
    case face
    from face show ?thesis
      by (auto simp: e Cons.IH [of "fadd z (fmul (fdiv (ofNat (length (faces rng))) a) (ofNat t))" sB,
            symmetric] split: option.splits)
  next
    case sub
    show ?thesis
    proof (cases "getBestConversion fuel dA sd mf")
      case None
      with sub show ?thesis by (simp add: e)
    next
      case (Some r)
      from sub Some show ?thesis
        by (auto simp: e Cons.IH [of "fadd z (fmul (fdiv (ofNat (length (faces rng))) a)
          (fadd (ofNat t) (expectation r)))" sB, symmetric] split: option.splits)
    qed
  qed
qed

lemma conversionLoop_branches:
  "map_option (\<lambda>s. snd (snd s))
     (conversionLoop (\<lambda>subDie. getBestConversion fuel dA subDie mf) dA dB mf t)
   = specConversions fuel dA dB mf t"
  unfolding conversionLoop_def specConversions_def by (rule convLoop_branches)

text \<open>
  Claim C3. \<^verbatim>\<open>getConversion\<close> builds the rule of the specification: its map has, for
  each entry of the partition of the tosses of the round and in the same order, the
  repeat branch when the sub-die is the whole target die, the face when the sub-die has
  a single face, and otherwise the rule that \<^verbatim>\<open>getBestConversion\<close> returns for the
  sub-die; and the stored expectation is the value of the formula on this map: with
  \<open>a = |dieA| ^ throws\<close>, \<open>sizeB\<close> the size of the repeat branch and \<open>z\<close> the sum over the
  other branches of \<open>(branchSize / a) * (throws + branchExpectation)\<close>, where a face
  has expectation \<open>0\<close> and a reduction the expectation of its rule, it is
  \<open>(a * z + sizeB * throws) / (a - sizeB)\<close>. No rule is built exactly when the rule of
  some reduction is not obtained.
\<close>

theorem getConversion_expectation_formula:
  "getConversion fuel dA dB mf t =
     map_option (\<lambda>cs. Rule dA dB mf t cs (specExpectation dA t cs))
       (specConversions fuel dA dB mf t)"
proof (cases "getConversion fuel dA dB mf t")
  case None
  then have "conversionLoop (\<lambda>subDie. getBestConversion fuel dA subDie mf) dA dB mf t = None"
    by (auto simp: getConversion_def getConversionWith_def Let_def split: option.splits)
  with conversionLoop_branches [of fuel dA mf dB t] have "specConversions fuel dA dB mf t = None"
    by simp
  with None show ?thesis by simp
next
  case (Some r)
  then obtain z sB cs
    where loop: "conversionLoop (\<lambda>subDie. getBestConversion fuel dA subDie mf) dA dB mf t
        = Some (z, sB, cs)"
      and r: "r = Rule dA dB mf t cs
          (fdiv (fadd (fmul (ofNat (length dA ^ t)) z) (fmul (ofNat sB) (ofNat t)))
                (fsub (ofNat (length dA ^ t)) (ofNat sB)))"
    by (auto simp: getConversion_def getConversionWith_def Let_def split: option.splits)
  from conversionLoop_branches [of fuel dA mf dB t] loop
  have sc: "specConversions fuel dA dB mf t = Some cs" by simp
  from Some have "expectation r = specExpectation dA t (conversions r)"
    unfolding getConversion_def by (rule getConversionWith_spec)
  then have "r = Rule dA dB mf t cs (specExpectation dA t cs)" by (simp add: r)
  with Some sc show ?thesis by simp
qed

theorem getConversion_expectation_formula_witness:
  "\<exists>cs. specConversions 2 [''H'', ''T''] [''1'', ''2'', ''3'', ''4'', ''5'', ''6''] False 3 = Some cs
     \<and> getConversion 2 [''H'', ''T''] [''1'', ''2'', ''3'', ''4'', ''5'', ''6''] False 3
       = Some (Rule [''H'', ''T''] [''1'', ''2'', ''3'', ''4'', ''5'', ''6''] False 3 cs
           (Fin (2064149829211477 / 562949953421312)))
     \<and> specExpectation [''H'', ''T''] 3 cs = Fin (2064149829211477 / 562949953421312)
     \<and> length (filter (\<lambda>c. \<not> isRepeat c) cs) = 8"
proof -
  have e: "getConversion 2 [''H'', ''T''] [''1'', ''2'', ''3'', ''4'', ''5'', ''6''] False 3 =
     getConversion (Suc (Suc 0)) [''H'', ''T''] [''1'', ''2'', ''3'', ''4'', ''5'', ''6''] False
       (Suc (Suc (Suc 0)))"
    by (simp add: numeral_2_eq_2 numeral_3_eq_3)
  from getConversion_expectation_formula
    [of 2 "[''H'', ''T'']" "[''1'', ''2'', ''3'', ''4'', ''5'', ''6'']" False 3]
  show ?thesis unfolding e conv_2_6 by (cases "specConversions 2 [''H'', ''T''] [''1'', ''2'', ''3'', ''4'', ''5'', ''6''] False 3") auto
qed

section \<open>A round with a repeat branch\<close>

lemma loop_2_3: "conversionLoop best [''H'', ''T''] [''1'', ''2'', ''3''] False (Suc (Suc 0))
    = Some (Fin (3 / 2), Suc 0,
    [(\<lparr>faces = [[''H'', ''H'']], ids = [0]\<rparr>, Face ''1''),
     (\<lparr>faces = [[''H'', ''T'']], ids = [1]\<rparr>, Face ''2''),
     (\<lparr>faces = [[''T'', ''H'']], ids = [2]\<rparr>, Face ''3''),
     (\<lparr>faces = [[''T'', ''T'']], ids = [3]\<rparr>, Self)])"
  by (simp add: conv_eval part_2_3a' fl_eval)

text \<open>
  Claim C1, amended. In every call of \<^verbatim>\<open>getConversion\<close> the size \<open>sizeB\<close> of the repeat
  branch is at most \<open>a = |dieA| ^ throws\<close>. It is less than \<open>a\<close> when \<^verbatim>\<open>makeFair\<close> is false
  and the target die has at least two and at most \<open>a\<close> faces. With \<^verbatim>\<open>makeFair\<close> true
  \<open>sizeB\<close> can be \<open>a\<close>; the quotient is then an infinity, not an error.
\<close>

theorem sizeB_bound:
  assumes "conversionLoop best dA dB mf t = Some (z, sizeB, cs)"
  shows "sizeB \<le> length dA ^ t \<and>
    (\<not> mf \<and> 2 \<le> length dB \<and> length dB \<le> length dA ^ t \<longrightarrow> sizeB < length dA ^ t)"
  using assms conversionLoop_sizeB_le [OF assms] conversionLoop_sizeB_less [of best dA dB t z sizeB cs]
  by auto

theorem sizeB_bound_witness:
  "conversionLoop (\<lambda>d. None) [''H'', ''T''] [''1'', ''2'', ''3''] False 2
     = Some (Fin (3 / 2), 1,
        [(\<lparr>faces = [[''H'', ''H'']], ids = [0]\<rparr>, Face ''1''),
         (\<lparr>faces = [[''H'', ''T'']], ids = [1]\<rparr>, Face ''2''),
         (\<lparr>faces = [[''T'', ''H'']], ids = [2]\<rparr>, Face ''3''),
         (\<lparr>faces = [[''T'', ''T'']], ids = [3]\<rparr>, Self)])
   \<and> (1::nat) \<le> length [''H'', ''T''] ^ 2
   \<and> (\<not> False \<and> 2 \<le> length [''1'', ''2'', ''3'']
        \<and> length [''1'', ''2'', ''3''] \<le> length [''H'', ''T''] ^ 2)
   \<and> (1::nat) < length [''H'', ''T''] ^ 2"
proof -
  have l: "conversionLoop (\<lambda>d. None) [''H'', ''T''] [''1'', ''2'', ''3''] False 2
     = Some (Fin (3 / 2), 1,
        [(\<lparr>faces = [[''H'', ''H'']], ids = [0]\<rparr>, Face ''1''),
         (\<lparr>faces = [[''H'', ''T'']], ids = [1]\<rparr>, Face ''2''),
         (\<lparr>faces = [[''T'', ''H'']], ids = [2]\<rparr>, Face ''3''),
         (\<lparr>faces = [[''T'', ''T'']], ids = [3]\<rparr>, Self)])"
    using loop_2_3 [of "\<lambda>d. None"] by (simp add: numeral_2_eq_2)
  from sizeB_bound [OF l] l show ?thesis by (simp add: power2_eq_square)
qed

section \<open>Digits and ids\<close>

lemma idOf_Nil [simp]: "idOf n [] = 0"
  by (simp add: idOf_def)

lemma idOf_snoc [simp]: "idOf n (ds @ [d]) = idOf n ds * n + d"
  by (simp add: idOf_def)

lemma length_digitsOf [simp]: "length (digitsOf n t i) = t"
  by (induction t arbitrary: i) simp_all

lemma digitsOf_lt: "0 < n \<Longrightarrow> d \<in> set (digitsOf n t i) \<Longrightarrow> d < n"
  by (induction t arbitrary: i) auto

lemma digitsOf_zero: "digitsOf n t 0 = replicate t 0"
  by (induction t) (simp_all add: replicate_append_same)

lemma idOf_digitsOf: "i < n ^ t \<Longrightarrow> idOf n (digitsOf n t i) = i"
proof (induction t arbitrary: i)
  case 0
  then show ?case by simp
next
  case (Suc t)
  then have "i div n < n ^ t"
    by (simp add: less_mult_imp_div_less mult.commute)
  with Suc.IH show ?case by simp
qed

lemma idOf_lt:
  "length ds = t \<Longrightarrow> \<forall>d \<in> set ds. d < n \<Longrightarrow> idOf n ds < n ^ t"
proof (induction ds arbitrary: t rule: rev_induct)
  case Nil
  then show ?case by simp
next
  case (snoc d ds)
  then obtain t' where t: "t = Suc t'" and len: "length ds = t'" by (cases t) auto
  from snoc have d: "d < n" and IH: "idOf n ds < n ^ t'" using len by auto
  then have "Suc (idOf n ds) \<le> n ^ t'" by simp
  then have "Suc (idOf n ds) * n \<le> n ^ t' * n" by (rule mult_le_mono1)
  with d have "idOf n ds * n + d < n ^ t' * n" by simp
  then show ?case by (simp add: t ac_simps)
qed

lemma digitsOf_idOf:
  "length ds = t \<Longrightarrow> \<forall>d \<in> set ds. d < n \<Longrightarrow> digitsOf n t (idOf n ds) = ds"
proof (induction ds arbitrary: t rule: rev_induct)
  case Nil
  then show ?case by simp
next
  case (snoc d ds)
  then obtain t' where t: "t = Suc t'" and len: "length ds = t'" by (cases t) auto
  from snoc have d: "d < n" and IH: "digitsOf n t' (idOf n ds) = ds" using len by auto
  from d have "(idOf n ds * n + d) div n = idOf n ds" "(idOf n ds * n + d) mod n = d" by simp_all
  with IH show ?case by (simp add: t)
qed

section \<open>The odometer\<close>

lemma length_carry [simp]: "length (carry n ds c) = length ds"
  by (induction n ds c rule: carry.induct) (simp_all add: Let_def)

lemma carry_append: "c \<le> length ds \<Longrightarrow> carry n (ds @ xs) c = carry n ds c @ xs"
proof (induction n ds c rule: carry.induct)
  case (1 n ds)
  then show ?case by simp
next
  case (2 n ds j)
  from "2.prems" have j: "j < length ds" by simp
  show ?case
  proof (cases "ds ! j < n")
    case True
    with j show ?thesis by (simp add: nth_append)
  next
    case False
    let ?ds1 = "ds[j := ds ! j - n]"
    let ?ds2 = "if j = 0 then ?ds1 else ?ds1[j - 1 := ?ds1 ! (j - 1) + 1]"
    have a: "(ds @ xs)[j := (ds @ xs) ! j - n] = ?ds1 @ xs"
      using j by (simp add: nth_append list_update_append1)
    have j1: "j - 1 < length ?ds1" using j by simp
    have b: "(if j = 0 then ?ds1 @ xs else (?ds1 @ xs)[j - 1 := (?ds1 @ xs) ! (j - 1) + 1])
        = ?ds2 @ xs"
      using j1 by (simp only: nth_append list_update_append1 if_True split: if_splits) simp
    have "carry n (?ds2 @ xs) j = carry n ?ds2 j @ xs"
      using False j by (intro "2.IH") (simp_all add: Let_def)
    with False j a b show ?thesis by (simp add: nth_append Let_def)
  qed
qed

lemma carry_value:
  assumes "length ds = c" "\<forall>d \<in> set (butlast ds). d < n" "ds \<noteq> [] \<longrightarrow> last ds \<le> n"
    "idOf n ds < n ^ c"
  shows "(\<forall>d \<in> set (carry n ds c). d < n) \<and> idOf n (carry n ds c) = idOf n ds"
  using assms
proof (induction c arbitrary: ds)
  case 0
  then show ?case by simp
next
  case (Suc j)
  from Suc.prems(1) obtain es x where ds: "ds = es @ [x]" and len: "length es = j"
    by (cases ds rule: rev_cases) auto
  from Suc.prems(2,3) have es: "\<forall>d \<in> set es. d < n" and x: "x \<le> n" by (simp_all add: ds)
  have nth: "ds ! j = x" by (simp add: ds len [symmetric])
  show ?case
  proof (cases "x < n")
    case True
    with es nth show ?thesis by (simp add: ds)
  next
    case False
    with x have xn: "x = n" by simp
    from Suc.prems(4) have val: "idOf n es * n + n < n ^ j * n" by (simp add: ds xn ac_simps)
    have ds1: "ds[j := ds ! j - n] = es @ [0]" by (simp add: ds len [symmetric] xn)
    show ?thesis
    proof (cases "j = 0")
      case True
      with val len show ?thesis by simp
    next
      case j: False
      with len obtain fs y where es': "es = fs @ [y]" and lenf: "length fs = j - 1"
        by (cases es rule: rev_cases) auto
      define es2 where "es2 = fs @ [y + 1]"
      have "(fs @ [y, 0])[length fs := (fs @ [y, 0]) ! length fs + 1] = fs @ [y + 1, 0]"
        by simp
      then have ds2: "(es @ [0])[j - 1 := (es @ [0]) ! (j - 1) + 1] = es2 @ [0]"
        unfolding lenf by (simp add: es' es2_def)
      have "Suc (idOf n es) * n < n ^ j * n" using val by simp
      then have m2: "Suc (idOf n es) < n ^ j" by (simp only: mult_less_cancel2)
      have e2: "idOf n es2 = Suc (idOf n es)" by (simp add: es2_def es')
      have v2: "idOf n es2 < n ^ j" unfolding e2 by (rule m2)
      have "length es2 = j" using len by (simp add: es2_def es')
      moreover have "\<forall>d \<in> set (butlast es2). d < n" using es by (simp add: es2_def es')
      moreover have "es2 \<noteq> [] \<longrightarrow> last es2 \<le> n" using es by (simp add: es2_def es' Suc_le_eq)
      ultimately have IH: "(\<forall>d \<in> set (carry n es2 j). d < n)
          \<and> idOf n (carry n es2 j) = idOf n es2"
        using v2 by (intro Suc.IH)
      have npos: "0 < n" using val by (cases n) simp_all
      have nf: "\<not> ds ! j < n" using False nth by simp
      have "carry n ds (Suc j)
          = carry n ((ds[j := ds ! j - n])[j - 1 := (ds[j := ds ! j - n]) ! (j - 1) + 1]) j"
        using nf j by (simp only: carry.simps Let_def if_False)
      also have "\<dots> = carry n (es2 @ [0]) j" by (simp only: ds1 ds2)
      also have "\<dots> = carry n es2 j @ [0]"
        using \<open>length es2 = j\<close> by (intro carry_append) simp
      finally have r: "carry n ds (Suc j) = carry n es2 j @ [0]" .
      show ?thesis unfolding r using IH npos e2 by (simp add: ds xn)
    qed
  qed
qed

lemma nextDigits_digitsOf:
  assumes "Suc k < n ^ t"
  shows "nextDigits n t (digitsOf n t k) = digitsOf n t (Suc k)"
proof (cases t)
  case 0
  with assms show ?thesis by simp
next
  case (Suc t')
  have npos: "0 < n" using assms Suc by (cases n) simp_all
  define es where "es = digitsOf n t' (k div n)"
  define ds where "ds = es @ [k mod n + 1]"
  have k: "k < n ^ t" using assms by simp
  then have "k div n < n ^ t'" by (simp add: Suc less_mult_imp_div_less mult.commute)
  then have ves: "idOf n es = k div n" unfolding es_def by (rule idOf_digitsOf)
  have le: "length es = t'" by (simp add: es_def)
  have d: "digitsOf n t k = es @ [k mod n]" by (simp add: Suc es_def)
  have upd: "(digitsOf n t k)[t - 1 := digitsOf n t k ! (t - 1) + 1] = ds"
    unfolding d ds_def
    using list_update_length [of es "k mod n" "[]" "k mod n + 1"]
      nth_append_length [of es "k mod n" "[]"]
    by (simp add: le Suc)
  have v: "idOf n ds = Suc k" by (simp add: ds_def ves)
  have "(\<forall>d \<in> set (carry n ds t). d < n) \<and> idOf n (carry n ds t) = idOf n ds"
  proof (rule carry_value)
    show "length ds = t" by (simp add: ds_def es_def Suc)
    show "\<forall>d \<in> set (butlast ds). d < n" using npos by (auto simp: ds_def es_def dest: digitsOf_lt)
    show "ds \<noteq> [] \<longrightarrow> last ds \<le> n" using npos by (simp add: ds_def Suc_le_eq)
    show "idOf n ds < n ^ t" using assms by (simp add: v)
  qed
  moreover have "length (carry n ds t) = t" by (simp only: length_carry) (simp add: ds_def le Suc)
  ultimately have "digitsOf n t (idOf n (carry n ds t)) = carry n ds t"
    by (intro digitsOf_idOf) simp_all
  moreover have "idOf n (carry n ds t) = Suc k"
    using \<open>(\<forall>d \<in> set (carry n ds t). d < n) \<and> idOf n (carry n ds t) = idOf n ds\<close> v by simp
  ultimately show ?thesis unfolding nextDigits_def upd by simp
qed

section \<open>The loop of generateTosses\<close>

lemma addToss_keys:
  "set (map fst (addToss bc key f i)) = insert key (set (map fst bc))"
  by (induction bc key f i rule: addToss.induct) auto

lemma addToss_distinct:
  "distinct (map fst bc) \<Longrightarrow> distinct (map fst (addToss bc key f i))"
proof (induction bc key f i rule: addToss.induct)
  case (1 key f i)
  then show ?case by simp
next
  case (2 k r bc key f i)
  then show ?case using addToss_keys [of bc key f i] by auto
qed

lemma rangeOk_mono: "rangeOk fs u t k key r \<Longrightarrow> rangeOk fs u t (Suc k) key r"
  by (auto simp: rangeOk_def less_Suc_eq)

lemma rangeOk_single:
  "tossOk fs u t key f k \<Longrightarrow>
   rangeOk fs u t (Suc k) key \<lparr>faces = [f], ids = [k]\<rparr>"
  by (simp add: rangeOk_def)

lemma rangeOk_snoc:
  assumes "rangeOk fs u t k key r" "tossOk fs u t key f k"
  shows "rangeOk fs u t (Suc k) key \<lparr>faces = faces r @ [f], ids = ids r @ [k]\<rparr>"
proof -
  from assms(1) have len: "length (faces r) = length (ids r)"
    and srt: "sorted_wrt (<) (ids r)" and lt: "\<forall>i \<in> set (ids r). i < k"
    and ok: "\<forall>j < length (ids r). tossOk fs u t key (faces r ! j) (ids r ! j)"
    by (simp_all add: rangeOk_def)
  have "sorted_wrt (<) (ids r @ [k])" using srt lt by (simp add: sorted_wrt_append)
  moreover have "\<forall>i \<in> set (ids r @ [k]). i < Suc k" using lt by (auto simp: less_Suc_eq)
  moreover have "\<forall>j < length (ids r @ [k]).
      tossOk fs u t key ((faces r @ [f]) ! j) ((ids r @ [k]) ! j)"
  proof (intro allI impI)
    fix j assume "j < length (ids r @ [k])"
    then consider "j < length (ids r)" | "j = length (ids r)" by fastforce
    then show "tossOk fs u t key ((faces r @ [f]) ! j) ((ids r @ [k]) ! j)"
    proof cases
      case 1
      with ok len show ?thesis by (simp add: nth_append)
    next
      case 2
      with assms(2) len show ?thesis by (simp add: nth_append)
    qed
  qed
  ultimately show ?thesis using len by (simp add: rangeOk_def)
qed

lemma addToss_rangeOk:
  assumes "\<forall>p \<in> set bc. rangeOk fs u t k (fst p) (snd p)" "tossOk fs u t key f k"
  shows "\<forall>p \<in> set (addToss bc key f k). rangeOk fs u t (Suc k) (fst p) (snd p)"
  using assms
proof (induction bc key f k rule: addToss.induct)
  case (1 key f i)
  then show ?case by (simp add: rangeOk_single)
next
  case (2 k' r bc key f i)
  show ?case
  proof (cases "k' = key")
    case True
    with "2.prems" show ?thesis by (auto intro: rangeOk_snoc rangeOk_mono)
  next
    case False
    with "2.prems" "2.IH" show ?thesis by (auto intro: rangeOk_mono)
  qed
qed

lemma addToss_classInv:
  "classInv fs u t k bc \<Longrightarrow> tossOk fs u t key f k \<Longrightarrow>
   classInv fs u t (Suc k) (addToss bc key f k)"
  unfolding classInv_def by (intro conjI addToss_distinct addToss_rangeOk) simp_all

lemma fold_genStep_inv:
  assumes "k < length fs ^ t \<or> (k = length fs ^ t)"
  shows "(k < length fs ^ t \<longrightarrow>
            snd (fold (genStep fs u t) [0..<k] ([], replicate t 0)) = digitsOf (length fs) t k)
       \<and> classInv fs u t k (fst (fold (genStep fs u t) [0..<k] ([], replicate t 0)))"
  using assms
proof (induction k)
  case 0
  then show ?case by (simp add: digitsOf_zero classInv_def)
next
  case (Suc k)
  let ?st = "fold (genStep fs u t) [0..<k] ([], replicate t 0)"
  from Suc.prems have k: "k < length fs ^ t" by auto
  with Suc.IH have dg: "snd ?st = digitsOf (length fs) t k"
    and inv: "classInv fs u t k (fst ?st)" by simp_all
  define f where "f = tossFacesArray fs (snd ?st)"
  have ok: "tossOk fs u t (chanceKey u f) f k" by (simp add: tossOk_def f_def dg)
  have step: "fold (genStep fs u t) [0..<Suc k] ([], replicate t 0)
      = (addToss (fst ?st) (chanceKey u f) f k, nextDigits (length fs) t (snd ?st))"
    by (simp add: genStep_def f_def Let_def case_prod_beta)
  show ?case
    unfolding step fst_conv snd_conv dg
    using addToss_classInv [OF inv ok] nextDigits_digitsOf [of k "length fs" t] by simp
qed

lemma generateTosses_inv:
  "\<exists>bc. generateTosses fs u t = map snd bc \<and> classInv fs u t (length fs ^ t) bc"
  using fold_genStep_inv [of "length fs ^ t" fs t u]
  by (auto simp: generateTosses_def Let_def)

lemma class_key:
  assumes "classInv fs u t k bc" "a < length bc" "x \<in> set (faces (snd (bc ! a)))"
  shows "chanceKey u x = fst (bc ! a)"
proof -
  from assms(1,2) have ok: "rangeOk fs u t k (fst (bc ! a)) (snd (bc ! a))"
    by (simp add: classInv_def)
  from assms(3) obtain j where j: "j < length (faces (snd (bc ! a)))"
    and x: "x = faces (snd (bc ! a)) ! j" by (auto simp: in_set_conv_nth)
  from ok j have "tossOk fs u t (fst (bc ! a)) (faces (snd (bc ! a)) ! j) (ids (snd (bc ! a)) ! j)"
    by (simp add: rangeOk_def)
  then have "chanceKey u (faces (snd (bc ! a)) ! j) = fst (bc ! a)"
    unfolding tossOk_def by (rule conjunct2)
  then show ?thesis unfolding x .
qed

lemma sort_eq_iff_mset: "(sort xs = sort ys) = (mset xs = mset ys)"
proof
  assume "sort xs = sort ys"
  then have "mset (sort xs) = mset (sort ys)" by simp
  then show "mset xs = mset ys" by simp
next
  assume "mset xs = mset ys"
  then have "mset (sort ys) = mset xs" by simp
  then show "sort xs = sort ys" by (rule properties_for_sort) simp
qed

text \<open>
  C9: for a die of \<open>n \<ge> 1\<close> faces and \<open>t \<ge> 1\<close> throws, the ids of the classes of
  \<^verbatim>\<open>generateTosses\<close> are the numbers below \<open>n ^ t\<close>, each once; the faces of a toss are
  those of the digits of its id in base \<open>n\<close>, the first draw being the most significant
  digit, and the sequences of \<open>t\<close> digits below \<open>n\<close> correspond one to one to the ids; in
  every class the ids are in ascending order; with the unfair flag two tosses are in the
  same class exactly when their faces are the same multiset; without the flag there is
  exactly one class.
\<close>

theorem generateTosses_classes:
  assumes "1 \<le> length fs" and "1 \<le> t"
  shows "idsOf (generateTosses fs u t) = mset [0..<length fs ^ t]
    \<and> (\<forall>c \<in> set (generateTosses fs u t).
          length (faces c) = length (ids c) \<and> sorted_wrt (<) (ids c)
          \<and> (\<forall>j < length (ids c).
                faces c ! j = tossFacesArray fs (digitsOf (length fs) t (ids c ! j))
                \<and> idOf (length fs) (digitsOf (length fs) t (ids c ! j)) = ids c ! j))
    \<and> (\<forall>ds. length ds = t \<and> (\<forall>d \<in> set ds. d < length fs) \<longrightarrow>
          idOf (length fs) ds < length fs ^ t
          \<and> digitsOf (length fs) t (idOf (length fs) ds) = ds)
    \<and> (u \<longrightarrow> (\<forall>a < length (generateTosses fs u t). \<forall>b < length (generateTosses fs u t).
          \<forall>x \<in> set (faces (generateTosses fs u t ! a)).
          \<forall>y \<in> set (faces (generateTosses fs u t ! b)). (a = b) = (mset x = mset y)))
    \<and> (\<not> u \<longrightarrow> length (generateTosses fs u t) = 1)"
proof -
  obtain bc where cs: "generateTosses fs u t = map snd bc"
    and inv: "classInv fs u t (length fs ^ t) bc"
    using generateTosses_inv by blast
  have p1: "idsOf (generateTosses fs u t) = mset [0..<length fs ^ t]"
    by (rule generateTosses_ids)
  have p2: "\<forall>c \<in> set (generateTosses fs u t).
          length (faces c) = length (ids c) \<and> sorted_wrt (<) (ids c)
          \<and> (\<forall>j < length (ids c).
                faces c ! j = tossFacesArray fs (digitsOf (length fs) t (ids c ! j))
                \<and> idOf (length fs) (digitsOf (length fs) t (ids c ! j)) = ids c ! j)"
  proof
    fix c assume "c \<in> set (generateTosses fs u t)"
    then obtain p where "p \<in> set bc" and c: "c = snd p" by (auto simp: cs)
    with inv have ok: "rangeOk fs u t (length fs ^ t) (fst p) c" by (simp add: classInv_def)
    have "\<forall>j < length (ids c).
        faces c ! j = tossFacesArray fs (digitsOf (length fs) t (ids c ! j))
        \<and> idOf (length fs) (digitsOf (length fs) t (ids c ! j)) = ids c ! j"
    proof (intro allI impI)
      fix j assume j: "j < length (ids c)"
      with ok have "ids c ! j < length fs ^ t" by (simp add: rangeOk_def)
      then have "idOf (length fs) (digitsOf (length fs) t (ids c ! j)) = ids c ! j"
        by (rule idOf_digitsOf)
      moreover from ok j
      have "faces c ! j = tossFacesArray fs (digitsOf (length fs) t (ids c ! j))"
        by (simp add: rangeOk_def tossOk_def)
      ultimately show "faces c ! j = tossFacesArray fs (digitsOf (length fs) t (ids c ! j))
        \<and> idOf (length fs) (digitsOf (length fs) t (ids c ! j)) = ids c ! j" by simp
    qed
    with ok show "length (faces c) = length (ids c) \<and> sorted_wrt (<) (ids c)
          \<and> (\<forall>j < length (ids c).
                faces c ! j = tossFacesArray fs (digitsOf (length fs) t (ids c ! j))
                \<and> idOf (length fs) (digitsOf (length fs) t (ids c ! j)) = ids c ! j)"
      by (simp add: rangeOk_def)
  qed
  have p3: "\<forall>ds. length ds = t \<and> (\<forall>d \<in> set ds. d < length fs) \<longrightarrow>
          idOf (length fs) ds < length fs ^ t
          \<and> digitsOf (length fs) t (idOf (length fs) ds) = ds"
    by (simp add: idOf_lt digitsOf_idOf)
  have p4: "u \<longrightarrow> (\<forall>a < length (generateTosses fs u t). \<forall>b < length (generateTosses fs u t).
          \<forall>x \<in> set (faces (generateTosses fs u t ! a)).
          \<forall>y \<in> set (faces (generateTosses fs u t ! b)). (a = b) = (mset x = mset y))"
  proof (intro impI allI ballI)
    fix a b x y
    assume u: u and a: "a < length (generateTosses fs u t)"
      and b: "b < length (generateTosses fs u t)"
      and x: "x \<in> set (faces (generateTosses fs u t ! a))"
      and y: "y \<in> set (faces (generateTosses fs u t ! b))"
    from a b have a': "a < length bc" and b': "b < length bc" by (simp_all add: cs)
    from x a' have "chanceKey u x = fst (bc ! a)" by (intro class_key [OF inv]) (simp_all add: cs)
    with u have kx: "sort x = fst (bc ! a)" by (simp add: chanceKey_def)
    from y b' have "chanceKey u y = fst (bc ! b)" by (intro class_key [OF inv]) (simp_all add: cs)
    with u have ky: "sort y = fst (bc ! b)" by (simp add: chanceKey_def)
    from inv have "distinct (map fst bc)" by (simp add: classInv_def)
    then have "(map fst bc ! a = map fst bc ! b) = (a = b)"
      using a' b' by (intro nth_eq_iff_index_eq) simp_all
    then have "(a = b) = (sort x = sort y)" using a' b' kx ky by simp
    then show "(a = b) = (mset x = mset y)" by (simp only: sort_eq_iff_mset)
  qed
  have p5: "\<not> u \<longrightarrow> length (generateTosses fs u t) = 1"
    using generateTosses_fair [OF assms(1), of t] by auto
  from p1 p2 p3 p4 p5 show ?thesis by (intro conjI)
qed

theorem generateTosses_classes_witness:
  "1 \<le> length [''H'', ''T''] \<and> (1::nat) \<le> 2
   \<and> generateTosses [''H'', ''T''] True 2
       = [\<lparr>faces = [[''H'', ''H'']], ids = [0]\<rparr>,
          \<lparr>faces = [[''H'', ''T''], [''T'', ''H'']], ids = [1, 2]\<rparr>,
          \<lparr>faces = [[''T'', ''T'']], ids = [3]\<rparr>]
   \<and> idsOf (generateTosses [''H'', ''T''] True 2) = mset [0..<length [''H'', ''T''] ^ 2]
   \<and> sorted_wrt (<) (ids \<lparr>faces = [[''H'', ''T''], [''T'', ''H'']], ids = [1, 2]\<rparr>)
   \<and> faces \<lparr>faces = [[''H'', ''T''], [''T'', ''H'']], ids = [1, 2]\<rparr> ! 1
       = tossFacesArray [''H'', ''T''] (digitsOf (length [''H'', ''T'']) 2
           (ids \<lparr>faces = [[''H'', ''T''], [''T'', ''H'']], ids = [1, 2]\<rparr> ! 1))
   \<and> idOf (length [''H'', ''T'']) [1, 0] < length [''H'', ''T''] ^ 2
   \<and> digitsOf (length [''H'', ''T'']) 2 (idOf (length [''H'', ''T'']) [1, 0]) = [1, 0]
   \<and> ((1::nat) = 1) = (mset [''H'', ''T''] = mset [''T'', ''H''])
   \<and> ((0::nat) = 1) = (mset [''H'', ''H''] = mset [''H'', ''T''])
   \<and> length (generateTosses [''H'', ''T''] False 2) = 1"
proof -
  let ?c = "\<lparr>faces = [[''H'', ''T''], [''T'', ''H'']], ids = [1, 2]\<rparr>"
  have h1: "1 \<le> length [''H'', ''T'']" by simp
  have h2: "(1::nat) \<le> 2" by simp
  have g: "generateTosses [''H'', ''T''] True 2
       = [\<lparr>faces = [[''H'', ''H'']], ids = [0]\<rparr>,
          \<lparr>faces = [[''H'', ''T''], [''T'', ''H'']], ids = [1, 2]\<rparr>,
          \<lparr>faces = [[''T'', ''T'']], ids = [3]\<rparr>]"
    by code_simp
  note T = generateTosses_classes [OF h1 h2, of True]
  note F = generateTosses_classes [OF h1 h2, of False]
  have p1: "idsOf (generateTosses [''H'', ''T''] True 2) = mset [0..<length [''H'', ''T''] ^ 2]"
    using T by (rule conjunct1)
  have c: "?c \<in> set (generateTosses [''H'', ''T''] True 2)" by (simp add: g)
  note cl = bspec [OF T [THEN conjunct2, THEN conjunct1] c]
  have p2: "sorted_wrt (<) (ids ?c)" using cl by (elim conjE)
  have j: "1 < length (ids ?c)" by simp
  from cl have "\<forall>j < length (ids ?c).
      faces ?c ! j = tossFacesArray [''H'', ''T''] (digitsOf (length [''H'', ''T'']) 2 (ids ?c ! j))
      \<and> idOf (length [''H'', ''T'']) (digitsOf (length [''H'', ''T'']) 2 (ids ?c ! j)) = ids ?c ! j"
    by (elim conjE)
  with j have p3: "faces ?c ! 1
      = tossFacesArray [''H'', ''T''] (digitsOf (length [''H'', ''T'']) 2 (ids ?c ! 1))"
    by blast
  have pre: "length [1, 0::nat] = 2 \<and> (\<forall>d \<in> set [1, 0::nat]. d < length [''H'', ''T''])"
    by simp
  note dg = mp [OF spec [OF T [THEN conjunct2, THEN conjunct2, THEN conjunct1], of "[1, 0]"] pre]
  have p4: "idOf (length [''H'', ''T'']) [1, 0] < length [''H'', ''T''] ^ 2"
    using dg by (rule conjunct1)
  have p5: "digitsOf (length [''H'', ''T'']) 2 (idOf (length [''H'', ''T'']) [1, 0]) = [1, 0]"
    using dg by (rule conjunct2)
  note cls = T [THEN conjunct2, THEN conjunct2, THEN conjunct2, THEN conjunct1, rule_format]
  have p6: "((1::nat) = 1) = (mset [''H'', ''T''] = mset [''T'', ''H''])"
    by (rule cls) (simp_all add: g)
  have p7: "((0::nat) = 1) = (mset [''H'', ''H''] = mset [''H'', ''T''])"
    by (rule cls) (simp_all add: g)
  have p8: "length (generateTosses [''H'', ''T''] False 2) = 1"
    using F [THEN conjunct2, THEN conjunct2, THEN conjunct2, THEN conjunct2] by simp
  from h1 h2 g p1 p2 p3 p4 p5 p6 p7 p8 show ?thesis by (intro conjI)
qed

section \<open>Monotonicity and error of the rounding\<close>

lemma ilog2_mono:
  assumes "0 < x" "x \<le> y"
  shows "ilog2 x \<le> ilog2 y"
proof -
  have y: "0 < y" using assms by linarith
  have "pow2 (ilog2 x) \<le> y" using ilog2_bounds(1) [OF assms(1)] assms(2) by linarith
  then have "ilog2 x < ilog2 y + 1" using ilog2_bounds(2) [OF y] by (rule pow2_less_cancel)
  then show ?thesis by simp
qed

lemma pow2_of_int: "0 \<le> k \<Longrightarrow> pow2 k = of_int (2 ^ nat k)"
  by (simp add: pow2_def)

lemma rnd_val_mono:
  assumes x: "0 < x" and le: "x \<le> y"
  shows "of_int (roundEven (x / pow2 (max (ilog2 x) (- 1022) - 52)))
           * pow2 (max (ilog2 x) (- 1022) - 52)
       \<le> of_int (roundEven (y / pow2 (max (ilog2 y) (- 1022) - 52)))
           * pow2 (max (ilog2 y) (- 1022) - 52)"
proof -
  define qx where "qx = max (ilog2 x) (- 1022) - 52"
  define qy where "qy = max (ilog2 y) (- 1022) - 52"
  have y: "0 < y" using x le by linarith
  have e: "ilog2 x \<le> ilog2 y" using x le by (rule ilog2_mono)
  then have q: "qx \<le> qy" by (simp add: qx_def qy_def max_def)
  have "of_int (roundEven (x / pow2 qx)) * pow2 qx \<le> of_int (roundEven (y / pow2 qy)) * pow2 qy"
  proof (cases "qx = qy")
    case True
    have "x / pow2 qy \<le> y / pow2 qy" using le by (simp add: divide_right_mono)
    then have "roundEven (x / pow2 qy) \<le> roundEven (y / pow2 qy)" by (rule roundEven_mono)
    then have "(of_int (roundEven (x / pow2 qy)) :: rat) \<le> of_int (roundEven (y / pow2 qy))"
      by (simp only: of_int_le_iff)
    then show ?thesis unfolding True by (rule mult_right_mono) simp
  next
    case False
    with q have lt: "qx < qy" by simp
    define ey where "ey = ilog2 y"
    have ey2: "ilog2 x < ey" and qy': "qy = ey - 52"
      using lt e by (auto simp: qx_def qy_def ey_def max_def split: if_splits)
    have d: "0 \<le> ey - qx" using lt qy' by simp
    note pint = pow2_of_int [OF d]
    have "x < pow2 (ilog2 x + 1)" by (rule ilog2_bounds(2) [OF x])
    also have "\<dots> \<le> pow2 ey" using ey2 by (intro pow2_mono) simp
    finally have xle: "x \<le> pow2 ey" by simp
    have "x / pow2 qx \<le> pow2 ey / pow2 qx" using xle by (simp add: divide_right_mono)
    also have "\<dots> = of_int (2 ^ nat (ey - qx))" by (simp only: pow2_diff [symmetric] pint)
    finally have "roundEven (x / pow2 qx) \<le> 2 ^ nat (ey - qx)" by (rule roundEven_le)
    then have "(of_int (roundEven (x / pow2 qx)) :: rat) \<le> of_int (2 ^ nat (ey - qx))"
      by (simp only: of_int_le_iff)
    then have "of_int (roundEven (x / pow2 qx)) * pow2 qx \<le> of_int (2 ^ nat (ey - qx)) * pow2 qx"
      by (rule mult_right_mono) simp
    also have "\<dots> = pow2 (ey - qx + qx)" by (simp only: pint [symmetric] pow2_add)
    finally have A: "of_int (roundEven (x / pow2 qx)) * pow2 qx \<le> pow2 ey" by simp
    have p52: "pow2 52 = of_int (2 ^ 52)" using pow2_of_int [of 52] by simp
    have "pow2 ey \<le> y" unfolding ey_def by (rule ilog2_bounds(1) [OF y])
    then have "pow2 ey / pow2 qy \<le> y / pow2 qy" by (simp add: divide_right_mono)
    moreover have "pow2 ey / pow2 qy = pow2 52" by (simp add: pow2_diff [symmetric] qy')
    ultimately have "of_int (2 ^ 52) \<le> y / pow2 qy" by (simp only: p52)
    then have "2 ^ 52 \<le> roundEven (y / pow2 qy)" by (rule roundEven_ge)
    then have "(of_int (2 ^ 52) :: rat) \<le> of_int (roundEven (y / pow2 qy))"
      by (simp only: of_int_le_iff)
    then have m1: "of_int (2 ^ 52) * pow2 qy \<le> of_int (roundEven (y / pow2 qy)) * pow2 qy"
      by (rule mult_right_mono) simp
    have m2: "of_int (2 ^ 52) * pow2 qy = pow2 (52 + qy)"
      by (simp only: p52 [symmetric] pow2_add)
    have m3: "52 + qy = ey" by (simp add: qy')
    from m1 have "pow2 (52 + qy) \<le> of_int (roundEven (y / pow2 qy)) * pow2 qy"
      by (simp only: m2)
    then have B: "pow2 ey \<le> of_int (roundEven (y / pow2 qy)) * pow2 qy" by (simp only: m3)
    from A B show ?thesis by linarith
  qed
  then show ?thesis by (simp only: qx_def qy_def)
qed

lemma rnd_mono:
  assumes x: "0 < x" and le: "x \<le> y" and fin: "rnd y = Fin b"
  shows "\<exists>a. rnd x = Fin a \<and> 0 \<le> a \<and> a \<le> b"
proof -
  have y: "0 < y" using x le by linarith
  let ?vx = "of_int (roundEven (x / pow2 (max (ilog2 x) (- 1022) - 52)))
           * pow2 (max (ilog2 x) (- 1022) - 52)"
  let ?vy = "of_int (roundEven (y / pow2 (max (ilog2 y) (- 1022) - 52)))
           * pow2 (max (ilog2 y) (- 1022) - 52)"
  from fin have vy: "\<not> pow2 1024 \<le> ?vy" and b: "b = ?vy"
    by (simp_all add: rnd_pos_unfold [OF y] split: if_splits)
  have m: "?vx \<le> ?vy" using x le by (rule rnd_val_mono)
  with vy have "\<not> pow2 1024 \<le> ?vx" by linarith
  then have rx: "rnd x = Fin ?vx" by (simp add: rnd_pos_unfold [OF x])
  have "0 \<le> x / pow2 (max (ilog2 x) (- 1022) - 52)" using x by simp
  then have "0 \<le> roundEven (x / pow2 (max (ilog2 x) (- 1022) - 52))"
    by (intro roundEven_ge) simp
  then have "0 \<le> ?vx" by simp
  with rx m b show ?thesis by simp
qed

lemma rnd_error:
  assumes x: "0 < x" and fin: "rnd x = Fin y"
  shows "\<bar>y - x\<bar> \<le> pow2 (max (ilog2 x) (- 1022) - 53)"
proof -
  define q where "q = max (ilog2 x) (- 1022) - 52"
  define m where "m = x / pow2 q"
  from fin have y: "y = of_int (roundEven m) * pow2 q"
    by (simp add: rnd_pos_unfold [OF x] q_def m_def split: if_splits)
  have xm: "x = m * pow2 q" by (simp add: m_def)
  have "y - x = (of_int (roundEven m) - m) * pow2 q" by (simp add: y xm algebra_simps)
  then have "\<bar>y - x\<bar> = \<bar>of_int (roundEven m) - m\<bar> * pow2 q" by (simp add: abs_mult)
  moreover have "\<bar>of_int (roundEven m) - m\<bar> \<le> 1 / 2"
    using roundEven_upper [of m] roundEven_lower [of m] by linarith
  then have "\<bar>of_int (roundEven m) - m\<bar> * pow2 q \<le> 1 / 2 * pow2 q"
    by (rule mult_right_mono) simp
  moreover have "pow2 q = 2 * pow2 (q - 1)" using pow2_Suc [of "q - 1"] by simp
  ultimately have "\<bar>y - x\<bar> \<le> pow2 (q - 1)" by simp
  moreover have "q - 1 = max (ilog2 x) (- 1022) - 53" by (simp add: q_def)
  ultimately show ?thesis by simp
qed

lemma rnd_two: "rnd 2 = Fin 2"
  using rnd_of_nat_exact [of 2] by simp

lemma rnd_small:
  assumes x: "0 < x" and le: "x \<le> 2"
  shows "\<exists>y. rnd x = Fin y \<and> 0 \<le> y \<and> y \<le> 2 \<and> \<bar>y - x\<bar> \<le> 1 / 2 ^ 53"
proof -
  from rnd_mono [OF x le rnd_two] obtain y where y: "rnd x = Fin y" "0 \<le> y" "y \<le> 2" by blast
  have "\<bar>y - x\<bar> \<le> 1 / 2 ^ 53"
  proof (cases "x = 2")
    case True
    with y(1) show ?thesis by (simp add: rnd_two)
  next
    case False
    with le have "x < pow2 1" by simp
    with ilog2_bounds(1) [OF x] have "ilog2 x < 1" by (rule pow2_less_cancel)
    then have "max (ilog2 x) (- 1022) - 53 \<le> - 53" by simp
    then have "pow2 (max (ilog2 x) (- 1022) - 53) \<le> pow2 (- 53)" by (rule pow2_mono)
    moreover have "pow2 (- 53) = 1 / 2 ^ 53" by (simp add: pow2_def)
    ultimately show ?thesis using rnd_error [OF x y(1)] by linarith
  qed
  with y show ?thesis by blast
qed

lemma rnd_rel:
  assumes x: "1 \<le> x" and fin: "rnd x = Fin y"
  shows "\<bar>y - x\<bar> \<le> x / 2 ^ 53"
proof -
  have x0: "0 < x" using x by linarith
  have e: "0 \<le> ilog2 x" using x by (rule ilog2_nonneg)
  then have "max (ilog2 x) (- 1022) - 53 = ilog2 x + (- 53)" by simp
  then have "pow2 (max (ilog2 x) (- 1022) - 53) = pow2 (ilog2 x) * pow2 (- 53)"
    by (simp only: pow2_add)
  also have "\<dots> \<le> x * pow2 (- 53)"
    using ilog2_bounds(1) [OF x0] by (rule mult_right_mono) simp
  also have "pow2 (- 53) = 1 / 2 ^ 53" by (simp add: pow2_def)
  finally show ?thesis using rnd_error [OF x0 fin] by simp
qed

section \<open>The sum of equal terms\<close>

lemma rnd_small_bounds:
  assumes "0 < x" "x \<le> 2" "eps = 1 / 2 ^ 53"
  shows "\<exists>y. rnd x = Fin y \<and> 0 \<le> y \<and> x - eps \<le> y \<and> y \<le> x + eps"
proof -
  from rnd_small [OF assms(1,2)] obtain y where y: "rnd x = Fin y" "0 \<le> y"
    "\<bar>y - x\<bar> \<le> 1 / 2 ^ 53" by blast
  from y(3) have "\<bar>y - x\<bar> \<le> eps" by (simp only: assms(3))
  then have "x - eps \<le> y \<and> y \<le> x + eps" by (simp only: abs_diff_le_iff)
  with y(1,2) show ?thesis by blast
qed

lemma sum_error:
  assumes u: "0 < u" and eps: "eps = 1 / 2 ^ 53"
    and k: "of_nat k * u + of_nat k * eps \<le> 2"
  shows "\<exists>z. ((\<lambda>z. fadd z (Fin u)) ^^ k) (Fin 0) = Fin z \<and> 0 \<le> z
      \<and> of_nat k * u - of_nat k * eps \<le> z \<and> z \<le> of_nat k * u + of_nat k * eps"
  using k
proof (induction k)
  case 0
  then show ?case by simp
next
  case (Suc k)
  have e0: "0 \<le> eps" by (simp add: eps)
  have s: "of_nat (Suc k) * u = of_nat k * u + u"
    "of_nat (Suc k) * eps = of_nat k * eps + eps"
    by (simp_all add: algebra_simps)
  from Suc.prems have "of_nat k * u + of_nat k * eps \<le> 2"
    unfolding s using u e0 by linarith
  with Suc.IH obtain z where z: "((\<lambda>z. fadd z (Fin u)) ^^ k) (Fin 0) = Fin z" "0 \<le> z"
    "of_nat k * u - of_nat k * eps \<le> z" "z \<le> of_nat k * u + of_nat k * eps" by blast
  have pos: "0 < z + u" using z(2) u by linarith
  have le: "z + u \<le> 2" using z(4) Suc.prems e0 unfolding s by linarith
  from rnd_small_bounds [OF pos le eps] obtain y where y: "rnd (z + u) = Fin y" "0 \<le> y"
    "z + u - eps \<le> y" "y \<le> z + u + eps" by blast
  have "of_nat (Suc k) * u - of_nat (Suc k) * eps \<le> y"
    "y \<le> of_nat (Suc k) * u + of_nat (Suc k) * eps"
    unfolding s using y(3,4) z(3,4) by linarith+
  with y z(1) show ?case by simp
qed

lemma same_size_expectation:
  assumes n2: "2 \<le> n" and n32: "n < 2 ^ 32"
  shows "\<exists>e. fdiv (fadd (fmul (ofNat (n ^ 1))
                  (((\<lambda>z. fadd z (fmul (fdiv (ofNat 1) (ofNat (n ^ 1))) (ofNat 1))) ^^ n) (Fin 0)))
                (fmul (ofNat 0) (ofNat 1)))
              (fsub (ofNat (n ^ 1)) (ofNat 0)) = Fin e
        \<and> \<bar>e - 1\<bar> \<le> (2 * of_nat n + 3) / 2 ^ 53"
proof -
  define N :: rat where "N = of_nat n"
  define eps :: rat where "eps = 1 / 2 ^ 53"
  have N2: "2 \<le> N" using n2 by (simp add: N_def)
  have N0: "0 < N" "0 \<le> N" "N \<noteq> 0" using N2 by linarith+
  have "(of_nat n :: rat) < of_nat (2 ^ 32)" using n32 by (simp only: of_nat_less_iff)
  then have N32: "N < 2 ^ 32" by (simp add: N_def)
  have n53: "n \<le> 2 ^ 53" using n32 by simp
  have oN: "ofNat (n ^ 1) = Fin N" using ofNat_exact [OF n53] by (simp add: N_def)
  have o1: "ofNat 1 = Fin 1" using ofNat_exact [of 1] by simp
  have o0: "ofNat 0 = Fin 0" using ofNat_exact [of 0] by simp
  have oN': "ofNat n = Fin N" using ofNat_exact [OF n53] by (simp add: N_def)
  have o1': "ofNat (Suc 0) = Fin 1" using ofNat_exact [of 1] by simp
  have e0: "0 < eps" "eps \<le> 1 / 8" by (simp_all add: eps_def)
  have Ne: "N * eps \<le> 1 / 8"
  proof -
    have "N * eps \<le> 2 ^ 32 * eps" using N32 e0(1) by (intro mult_right_mono) simp_all
    also have "\<dots> \<le> 1 / 8" by (simp add: eps_def)
    finally show ?thesis .
  qed
  have iN: "0 < 1 / N" "1 / N \<le> 2" using N2 by (simp_all add: field_simps)
  from rnd_small_bounds [OF iN eps_def] obtain u where u: "rnd (1 / N) = Fin u"
    "1 / N - eps \<le> u" "u \<le> 1 / N + eps" by blast
  have NiN: "N * (1 / N) = 1" using N0 by simp
  have "N * (1 / N - eps) \<le> N * u" using u(2) N0(2) by (rule mult_left_mono)
  then have Nu1: "1 - N * eps \<le> N * u" by (simp only: right_diff_distrib NiN)
  have "N * u \<le> N * (1 / N + eps)" using u(3) N0(2) by (rule mult_left_mono)
  then have Nu2: "N * u \<le> 1 + N * eps" by (simp only: distrib_left NiN)
  have "0 < N * u" using Nu1 Ne by linarith
  then have upos: "0 < u" using N0(1) by (simp add: zero_less_mult_iff)
  have tu: "fmul (fdiv (ofNat 1) (ofNat (n ^ 1))) (ofNat 1) = Fin u"
    using N0(3) rnd_idem [OF u(1)] by (simp add: oN' o1' u(1))
  have "N * u + N * eps \<le> 2" using Nu2 Ne by linarith
  then have "of_nat n * u + of_nat n * eps \<le> 2" by (simp only: N_def)
  from sum_error [OF upos eps_def this] obtain z
    where z: "((\<lambda>z. fadd z (Fin u)) ^^ n) (Fin 0) = Fin z"
      "N * u - N * eps \<le> z" "z \<le> N * u + N * eps" unfolding N_def by blast
  have z1: "1 - 2 * (N * eps) \<le> z" "z \<le> 1 + 2 * (N * eps)"
    using z(2,3) Nu1 Nu2 by linarith+
  have zb: "1 / 2 \<le> z" "z \<le> 2" using z1 Ne by linarith+
  have "N * (1 / 2) \<le> N * z" using zb(1) N0(2) by (rule mult_left_mono)
  moreover have "1 \<le> N * (1 / 2)" using N2 by simp
  ultimately have Nz1: "1 \<le> N * z" by linarith
  have Nz3: "N * z \<le> N * 2" using zb(2) N0(2) by (rule mult_left_mono)
  then have Nz2: "N * z \<le> of_nat (2 * n)" by (simp add: N_def)
  have Nzp: "0 < N * z" using Nz1 by linarith
  have "2 * n \<le> 2 ^ 53" using n32 by simp
  then have "rnd (of_nat (2 * n)) = Fin (of_nat (2 * n))" by (rule rnd_of_nat_exact)
  from rnd_mono [OF Nzp Nz2 this] obtain w where w: "rnd (N * z) = Fin w" by blast
  have "\<bar>w - N * z\<bar> \<le> N * z / 2 ^ 53" using Nz1 w by (rule rnd_rel)
  moreover have "N * z / 2 ^ 53 = N * z * eps" by (simp add: eps_def)
  ultimately have "\<bar>w - N * z\<bar> \<le> N * z * eps" by (simp only:)
  then have w0: "N * z - N * z * eps \<le> w" "w \<le> N * z + N * z * eps"
    by (simp_all only: abs_diff_le_iff)
  have "N * z * eps \<le> N * 2 * eps" using Nz3 e0(1) by (intro mult_right_mono) simp_all
  then have w1: "N * z * eps \<le> N * (2 * eps)" by (simp only: mult.assoc)
  have "w \<le> N * z + N * (2 * eps)" using w0(2) w1 by linarith
  then have "w \<le> N * (z + 2 * eps)" by (simp only: distrib_left)
  moreover have "N * (z + 2 * eps) \<le> N * (1 + 2 * (N * eps) + 2 * eps)"
    using N0(2) by (intro mult_left_mono) (use z1(2) in linarith)
  ultimately have "w \<le> (1 + 2 * (N * eps) + 2 * eps) * N" by (simp add: mult.commute)
  then have q2: "w / N \<le> 1 + 2 * (N * eps) + 2 * eps"
    using N0(1) by (simp only: pos_divide_le_eq)
  have "N * z - N * (2 * eps) \<le> w" using w0(1) w1 by linarith
  then have "N * (z - 2 * eps) \<le> w" by (simp only: right_diff_distrib)
  moreover have "N * (1 - 2 * (N * eps) - 2 * eps) \<le> N * (z - 2 * eps)"
    using N0(2) by (intro mult_left_mono) (use z1(1) in linarith)
  ultimately have "(1 - 2 * (N * eps) - 2 * eps) * N \<le> w" by (simp add: mult.commute)
  then have q1: "1 - 2 * (N * eps) - 2 * eps \<le> w / N"
    using N0(1) by (simp only: pos_le_divide_eq)
  have qb: "0 < w / N" "w / N \<le> 2" using q1 q2 Ne e0(2) by linarith+
  from rnd_small_bounds [OF qb eps_def] obtain e where e: "rnd (w / N) = Fin e"
    "w / N - eps \<le> e" "e \<le> w / N + eps" by blast
  have "1 - (2 * (N * eps) + 3 * eps) \<le> e \<and> e \<le> 1 + (2 * (N * eps) + 3 * eps)"
    using e(2,3) q1 q2 by linarith
  then have "\<bar>e - 1\<bar> \<le> 2 * (N * eps) + 3 * eps" by (simp only: abs_diff_le_iff)
  moreover have "2 * (N * eps) + 3 * eps = (2 * of_nat n + 3) / 2 ^ 53"
    by (simp add: eps_def N_def add_divide_distrib)
  ultimately have eb: "\<bar>e - 1\<bar> \<le> (2 * of_nat n + 3) / 2 ^ 53" by (simp only:)
  have ww: "rnd w = Fin w" using w by (rule rnd_idem)
  have NN: "rnd N = Fin N" unfolding N_def using n53 by (rule rnd_of_nat_exact)
  have "fdiv (fadd (fmul (ofNat (n ^ 1))
                  (((\<lambda>z. fadd z (fmul (fdiv (ofNat 1) (ofNat (n ^ 1))) (ofNat 1))) ^^ n) (Fin 0)))
                (fmul (ofNat 0) (ofNat 1)))
              (fsub (ofNat (n ^ 1)) (ofNat 0)) = Fin e"
    unfolding tu z(1) using N0(3) by (simp add: oN' o1' o0 w ww fsub_def NN e(1))
  with eb show ?thesis by blast
qed

section \<open>The round of one throw for a target of the size of the source\<close>

lemma convLoop_faces:
  assumes "\<forall>e \<in> set es. length (snd e) = 1 \<and> length (faces (fst e)) = 1" "length dB \<noteq> 1"
  shows "convLoop best dB t a es z sB
    = Some (((\<lambda>z. fadd z (fmul (fdiv (ofNat 1) a) (ofNat t))) ^^ length es) z, sB,
        map (\<lambda>e. (fst e, Face (snd e ! 0))) es)"
  using assms(1)
proof (induction es arbitrary: z)
  case Nil
  then show ?case by simp
next
  case (Cons e es)
  obtain rng sd where e: "e = (rng, sd)" by (cases e)
  from Cons.prems have l: "length sd = 1" "length (faces rng) = 1"
    and rest: "\<forall>e \<in> set es. length (snd e) = 1 \<and> length (faces (fst e)) = 1"
    by (simp_all add: e)
  from l(1) assms(2) have ne: "length sd \<noteq> length dB" by simp
  note sw = funpow_swap1 [of "\<lambda>z. fadd z (fmul (fdiv (ofNat 1) a) (ofNat t))" "length es" z]
  show ?case
    using ne l sw by (simp add: e Cons.IH [OF rest])
qed

lemma take1_drop: "i < length xs \<Longrightarrow> take (Suc 0) (drop i xs) = [xs ! i]"
  by (simp add: Cons_nth_drop_Suc [symmetric])

lemma allocate_identity:
  "allocate (Suc 0) \<lparr>faces = map (\<lambda>f. [f]) fs, ids = [0..<length fs]\<rparr>
       (replicate (length fs) emptyRange)
   = map (\<lambda>i. \<lparr>faces = [[fs ! i]], ids = [i]\<rparr>) [0..<length fs]"
  by (rule nth_equalityI) (simp_all add: allocate_def emptyRange_def take1_drop)

lemma div_self_length: "1 \<le> length fs \<Longrightarrow> length fs div length fs = Suc 0"
  by (cases fs) simp_all

lemma subDice_identity:
  "1 \<le> length fs \<Longrightarrow> subDice fs (length fs) = map (\<lambda>i. [fs ! i]) [0..<length fs]"
  by (simp add: subDice_def div_self_length take1_drop)

lemma addToResult_identity:
  "addToResult (map (\<lambda>i. \<lparr>faces = [[fs ! i]], ids = [i]\<rparr>) [0..<n]) (map (\<lambda>i. [fs ! i]) [0..<n])
   = map (\<lambda>i. (\<lparr>faces = [[fs ! i]], ids = [i]\<rparr>, [fs ! i])) [0..<n]"
proof -
  have "zip (map (\<lambda>i. \<lparr>faces = [[fs ! i]], ids = [i]\<rparr>) [0..<n]) (map (\<lambda>i. [fs ! i]) [0..<n])
      = map (\<lambda>i. (\<lparr>faces = [[fs ! i]], ids = [i]\<rparr>, [fs ! i])) [0..<n]"
    by (rule nth_equalityI) simp_all
  then show ?thesis by (simp add: addToResult_def sortById_def filter_map comp_def)
qed

lemma addToResult_empty: "addToResult (replicate dv emptyRange) sds = []"
proof -
  have "\<forall>p \<in> set (zip (replicate dv emptyRange) sds). fst p = emptyRange"
    by (auto dest: set_zip_leftD)
  then have "filter (\<lambda>(sr, sd). length (faces sr) \<noteq> 0) (zip (replicate dv emptyRange) sds) = []"
    by (auto simp: filter_empty_conv emptyRange_def)
  then show ?thesis by (simp add: addToResult_def)
qed

lemma fold_partitionStep_nil: "fold (partitionStep d) ds ([], res) = ([], res)"
  by (induction ds) (simp_all add: partitionStep_def addToResult_empty)

lemma partition_identity:
  assumes "1 \<le> length fs"
  shows "partitionTosses [\<lparr>faces = map (\<lambda>f. [f]) fs, ids = [0..<length fs]\<rparr>] fs
    = map (\<lambda>i. (\<lparr>faces = [[fs ! i]], ids = [i]\<rparr>, [fs ! i])) [0..<length fs]"
proof -
  let ?c = "\<lparr>faces = map (\<lambda>f. [f]) fs, ids = [0..<length fs]\<rparr>"
  from getDivisors_hd [OF assms] obtain ds where ds: "getDivisors (length fs) = length fs # ds"
    by blast
  have k: "length fs div length fs = Suc 0" using assms by (rule div_self_length)
  have a: "allocClasses (length fs) [?c] (replicate (length fs) emptyRange)
      = ([], map (\<lambda>i. \<lparr>faces = [[fs ! i]], ids = [i]\<rparr>) [0..<length fs])"
    by (simp add: k allocate_identity)
  have "partitionStep fs (length fs) ([?c], [])
      = ([], map (\<lambda>i. (\<lparr>faces = [[fs ! i]], ids = [i]\<rparr>, [fs ! i])) [0..<length fs])"
    unfolding partitionStep_def fst_conv snd_conv a
    by (simp add: subDice_identity [OF assms] addToResult_identity)
  then show ?thesis by (simp add: partitionTosses_def ds fold_partitionStep_nil)
qed

lemma generateTosses_one_throw:
  assumes "1 \<le> length fs"
  shows "generateTosses fs False 1 = [\<lparr>faces = map (\<lambda>f. [f]) fs, ids = [0..<length fs]\<rparr>]"
proof -
  let ?n = "length fs"
  from generateTosses_fair [OF assms, of 1] obtain c
    where g: "generateTosses fs False 1 = [c]" and lf: "length (faces c) = ?n" by auto
  from generateTosses_inv [of fs False 1] obtain bc
    where bc: "generateTosses fs False 1 = map snd bc" and inv: "classInv fs False 1 ?n bc"
    by auto
  from g bc obtain p where p: "bc = [p]" "snd p = c" by (cases bc) auto
  with inv have ok: "rangeOk fs False 1 ?n (fst p) c" by (simp add: classInv_def)
  then have len: "length (faces c) = length (ids c)" and srt: "sorted_wrt (<) (ids c)"
    and lt: "\<forall>i \<in> set (ids c). i < ?n"
    and tk: "\<forall>j < length (ids c). tossOk fs False 1 (fst p) (faces c ! j) (ids c ! j)"
    by (simp_all add: rangeOk_def)
  from srt have sd: "sorted (ids c)" "distinct (ids c)" by (simp_all add: strict_sorted_iff)
  have "set (ids c) \<subseteq> {0..<?n}" using lt by auto
  moreover have "card (set (ids c)) = card {0..<?n}"
    using sd(2) len lf by (simp add: distinct_card)
  ultimately have "set (ids c) = {0..<?n}" by (intro card_subset_eq) simp_all
  then have "set (ids c) = set [0..<?n]" by simp
  with sd have ids: "ids c = [0..<?n]"
    by (intro sorted_distinct_set_unique) simp_all
  have fc: "faces c = map (\<lambda>f. [f]) fs"
  proof (rule nth_equalityI)
    show "length (faces c) = length (map (\<lambda>f. [f]) fs)" by (simp add: lf)
  next
    fix j assume "j < length (faces c)"
    then have j: "j < ?n" by (simp add: lf)
    with tk have "faces c ! j = tossFacesArray fs (digitsOf ?n 1 (ids c ! j))"
      by (simp add: tossOk_def len [symmetric] lf)
    with j show "faces c ! j = map (\<lambda>f. [f]) fs ! j"
      by (simp add: ids tossFacesArray_def)
  qed
  from ids fc have "c = \<lparr>faces = map (\<lambda>f. [f]) fs, ids = [0..<?n]\<rparr>" by (cases c) simp
  with g show ?thesis by simp
qed

lemma conversionLoop_same_size:
  assumes "2 \<le> length fs"
  shows "conversionLoop best fs fs False 1
    = Some (((\<lambda>z. fadd z (fmul (fdiv (ofNat 1) (ofNat (length fs ^ 1))) (ofNat 1)))
                ^^ length fs) (Fin 0), 0,
        map (\<lambda>i. (\<lparr>faces = [[fs ! i]], ids = [i]\<rparr>, Face (fs ! i))) [0..<length fs])"
proof -
  have one: "1 \<le> length fs" using assms by simp
  have ne: "length fs \<noteq> 1" using assms by simp
  let ?es = "map (\<lambda>i. (\<lparr>faces = [[fs ! i]], ids = [i]\<rparr>, [fs ! i])) [0..<length fs]"
  have es: "\<forall>e \<in> set ?es. length (snd e) = 1 \<and> length (faces (fst e)) = 1" by auto
  show ?thesis
    unfolding conversionLoop_def generateTosses_one_throw [OF one] partition_identity [OF one]
      convLoop_faces [OF es ne]
    by (simp add: comp_def)
qed

section \<open>Dice of the same size\<close>

lemma best_6_2: "getBestConversion (Suc fuel) [''1'', ''2'', ''3'', ''4'', ''5'', ''6''] [''H'', ''T''] False
    = Some (Rule [''1'', ''2'', ''3'', ''4'', ''5'', ''6''] [''H'', ''T''] False (Suc 0)
    [(\<lparr>faces = [[''1''], [''2''], [''3'']], ids = [0, 1, 2]\<rparr>, Face ''H''),
     (\<lparr>faces = [[''4''], [''5''], [''6'']], ids = [3, 4, 5]\<rparr>, Face ''T'')]
    (Fin 1))"
  by (simp add: conv_eval part_6_2 fl_eval)

lemma best_6_6: "getBestConversion (Suc fuel) [''1'', ''2'', ''3'', ''4'', ''5'', ''6''] [''1'', ''2'', ''3'', ''4'', ''5'', ''6''] False
    = Some (Rule [''1'', ''2'', ''3'', ''4'', ''5'', ''6''] [''1'', ''2'', ''3'', ''4'', ''5'', ''6''] False (Suc 0)
     [(\<lparr>faces = [[''1'']], ids = [0]\<rparr>, Face ''1''),
     (\<lparr>faces = [[''2'']], ids = [1]\<rparr>, Face ''2''),
     (\<lparr>faces = [[''3'']], ids = [2]\<rparr>, Face ''3''),
     (\<lparr>faces = [[''4'']], ids = [3]\<rparr>, Face ''4''),
     (\<lparr>faces = [[''5'']], ids = [4]\<rparr>, Face ''5''),
     (\<lparr>faces = [[''6'']], ids = [5]\<rparr>, Face ''6'')]
     (Fin (9007199254740991 / 9007199254740992)))"
  by (simp add: conv_eval part_6_6 fl_eval)

lemma getConversionWith_same_size:
  assumes n2: "2 \<le> length fs" and n32: "length fs < 2 ^ 32"
  shows "\<exists>e. \<bar>e - 1\<bar> \<le> (2 * of_nat (length fs) + 3) / 2 ^ 53 \<and> e \<le> 2
    \<and> (\<forall>best. getConversionWith best fs fs False 1
        = Some (Rule fs fs False 1
            (map (\<lambda>i. (\<lparr>faces = [[fs ! i]], ids = [i]\<rparr>, Face (fs ! i))) [0..<length fs])
            (Fin e)))"
proof -
  from same_size_expectation [OF n2 n32] obtain e
    where E: "fdiv (fadd (fmul (ofNat (length fs ^ 1))
                  (((\<lambda>z. fadd z (fmul (fdiv (ofNat 1) (ofNat (length fs ^ 1))) (ofNat 1)))
                      ^^ length fs) (Fin 0)))
                (fmul (ofNat 0) (ofNat 1)))
              (fsub (ofNat (length fs ^ 1)) (ofNat 0)) = Fin e"
      and eb: "\<bar>e - 1\<bar> \<le> (2 * of_nat (length fs) + 3) / 2 ^ 53" by blast
  have "2 * length fs + 3 \<le> 2 ^ 53" using n32 by simp
  then have "(of_nat (2 * length fs + 3) :: rat) \<le> of_nat (2 ^ 53)" by (simp only: of_nat_le_iff)
  then have "(2 * of_nat (length fs) + 3 :: rat) \<le> 2 ^ 53" by simp
  then have "(2 * of_nat (length fs) + 3 :: rat) / 2 ^ 53 \<le> 2 ^ 53 / 2 ^ 53"
    by (rule divide_right_mono) simp
  then have "(2 * of_nat (length fs) + 3 :: rat) / 2 ^ 53 \<le> 1" by simp
  with eb have "\<bar>e - 1\<bar> \<le> 1" by linarith
  then have e2: "e \<le> 2" by (simp only: abs_diff_le_iff) linarith
  have "getConversionWith best fs fs False 1
        = Some (Rule fs fs False 1
            (map (\<lambda>i. (\<lparr>faces = [[fs ! i]], ids = [i]\<rparr>, Face (fs ! i))) [0..<length fs])
            (Fin e))" for best
    unfolding getConversionWith_def Let_def conversionLoop_same_size [OF n2]
    by (simp only: option.case prod.case E)
  with eb e2 show ?thesis by blast
qed

text \<open>
  Claim C8, as stated, fails: the expectation of the rule from a die of six faces to a
  die of six faces is not \<open>1\<close>. The six terms \<open>(1 / 6) * 1\<close> are added in double
  arithmetic, and the stored expectation is \<open>1 - 2\<^sup>-\<^sup>5\<^sup>3\<close>, the double below \<open>1\<close>
  (\<^verbatim>\<open>0.9999999999999999\<close>).
\<close>

theorem getBestConversion_six_to_six_counterexample:
  "2 \<le> length (createDie 6)
   \<and> getBestConversion 1 (createDie 6) (createDie 6) False
       = Some (Rule (createDie 6) (createDie 6) False 1
           [(\<lparr>faces = [[''1'']], ids = [0]\<rparr>, Face ''1''),
            (\<lparr>faces = [[''2'']], ids = [1]\<rparr>, Face ''2''),
            (\<lparr>faces = [[''3'']], ids = [2]\<rparr>, Face ''3''),
            (\<lparr>faces = [[''4'']], ids = [3]\<rparr>, Face ''4''),
            (\<lparr>faces = [[''5'']], ids = [4]\<rparr>, Face ''5''),
            (\<lparr>faces = [[''6'']], ids = [5]\<rparr>, Face ''6'')]
           (Fin (9007199254740991 / 9007199254740992)))
   \<and> Fin (9007199254740991 / 9007199254740992) \<noteq> Fin 1"
  using best_6_6 [of 0] by (simp add: createDie_6)

text \<open>
  Claim C8, amended. For a die of \<open>n\<close> faces, \<open>2 \<le> n < 2\<^sup>3\<^sup>2\<close>, and \<^verbatim>\<open>makeFair\<close> false,
  \<^verbatim>\<open>getBestConversion\<close> from the die to itself returns, after one round, the rule with
  \<^verbatim>\<open>throws = 1\<close> that maps the toss of each face to that face; its expectation is a
  double \<open>e\<close> with \<open>|e - 1| \<le> (2 n + 3) / 2\<^sup>5\<^sup>3\<close>, the rounding error of the sum of \<open>n\<close>
  terms, and need not be \<open>1\<close>. From \<^verbatim>\<open>createDie(6)\<close> to \<^verbatim>\<open>createDie(2)\<close> the rule has
  \<^verbatim>\<open>throws = 1\<close>, expectation \<open>1\<close> exactly, and maps three faces to each of \<^verbatim>\<open>H\<close> and
  \<^verbatim>\<open>T\<close>.
\<close>

theorem getBestConversion_same_size:
  "(2 \<le> length fs \<and> length fs < 2 ^ 32 \<longrightarrow>
      (\<exists>e. getBestConversion (Suc fuel) fs fs False
          = Some (Rule fs fs False 1
              (map (\<lambda>i. (\<lparr>faces = [[fs ! i]], ids = [i]\<rparr>, Face (fs ! i))) [0..<length fs])
              (Fin e))
        \<and> \<bar>e - 1\<bar> \<le> (2 * of_nat (length fs) + 3) / 2 ^ 53))
   \<and> getBestConversion (Suc fuel) (createDie 6) (createDie 2) False
       = Some (Rule (createDie 6) (createDie 2) False 1
           [(\<lparr>faces = [[''1''], [''2''], [''3'']], ids = [0, 1, 2]\<rparr>, Face ''H''),
            (\<lparr>faces = [[''4''], [''5''], [''6'']], ids = [3, 4, 5]\<rparr>, Face ''T'')]
           (Fin 1))"
proof (intro conjI impI)
  assume a: "2 \<le> length fs \<and> length fs < 2 ^ 32"
  then have n2: "2 \<le> length fs" and n32: "length fs < 2 ^ 32" by simp_all
  from getConversionWith_same_size [OF n2 n32] obtain e
    where eb: "\<bar>e - 1\<bar> \<le> (2 * of_nat (length fs) + 3) / 2 ^ 53" and e2: "e \<le> 2"
      and gw: "\<And>best. getConversionWith best fs fs False 1
        = Some (Rule fs fs False 1
            (map (\<lambda>i. (\<lparr>faces = [[fs ! i]], ids = [i]\<rparr>, Face (fs ! i))) [0..<length fs])
            (Fin e))" by blast
  have t2: "fadd (ofNat (Suc 0)) (Fin 1) = Fin 2" using fadd_ofNat_one [of 1] by simp
  have m: "minThrows (Suc fuel) (length fs) (length fs) (length fs) 1 = Some 1" by simp
  have "getBestConversion (Suc fuel) fs fs False
          = Some (Rule fs fs False 1
              (map (\<lambda>i. (\<lparr>faces = [[fs ! i]], ids = [i]\<rparr>, Face (fs ! i))) [0..<length fs])
              (Fin e))"
    unfolding getBestConversion_def m option.case search.simps gw
    using e2 by (simp add: better_def t2 Let_def)
  with eb show "\<exists>e. getBestConversion (Suc fuel) fs fs False
          = Some (Rule fs fs False 1
              (map (\<lambda>i. (\<lparr>faces = [[fs ! i]], ids = [i]\<rparr>, Face (fs ! i))) [0..<length fs])
              (Fin e))
        \<and> \<bar>e - 1\<bar> \<le> (2 * of_nat (length fs) + 3) / 2 ^ 53" by blast
next
  show "getBestConversion (Suc fuel) (createDie 6) (createDie 2) False
       = Some (Rule (createDie 6) (createDie 2) False 1
           [(\<lparr>faces = [[''1''], [''2''], [''3'']], ids = [0, 1, 2]\<rparr>, Face ''H''),
            (\<lparr>faces = [[''4''], [''5''], [''6'']], ids = [3, 4, 5]\<rparr>, Face ''T'')]
           (Fin 1))"
    by (simp add: createDie_6 createDie_2 best_6_2)
qed

theorem getBestConversion_same_size_witness:
  "(2 \<le> length (createDie 6) \<and> length (createDie 6) < 2 ^ 32)
   \<and> (\<exists>e. getBestConversion 1 (createDie 6) (createDie 6) False
          = Some (Rule (createDie 6) (createDie 6) False 1
              (map (\<lambda>i. (\<lparr>faces = [[createDie 6 ! i]], ids = [i]\<rparr>, Face (createDie 6 ! i)))
                 [0..<length (createDie 6)])
              (Fin e))
        \<and> \<bar>e - 1\<bar> \<le> (2 * of_nat (length (createDie 6)) + 3) / 2 ^ 53)"
proof -
  have h: "2 \<le> length (createDie 6) \<and> length (createDie 6) < 2 ^ 32" by (simp add: createDie_6)
  from getBestConversion_same_size [of "createDie 6" 0, THEN conjunct1, THEN mp, OF h] h
  show ?thesis by (simp only: One_nat_def) 
qed

end
